theory Spec2Isabelle
  imports Complex_Main "HOL-Library.Multiset"
begin

section \<open>Training callbacks (vocal\_contour/callbacks.py)\<close>

subsection \<open>Python values used by the callbacks\<close>

text \<open>
  The exceptions that the modelled code can raise. Attribute reads of attributes that
  were never assigned, the \<open>assert\<close> of \<open>EarlyStopping.on_epoch_end\<close>, a missing
  dictionary key, a local variable read before assignment, an index into an empty
  sequence, a modulus by zero, and a failure reported by the tensor runtime.
\<close>

datatype py_error =
    AttributeError
  | AssertionError
  | KeyError
  | UnboundLocalError
  | IndexError
  | ZeroDivisionError
  | InvalidArgumentError

text \<open>
  A metric value is a Python float: a finite number (modelled as a real), one of the two
  infinities (\<open>np.Inf\<close>, \<open>-np.Inf\<close> are the initial values of \<open>best\<close>), or NaN.
\<close>

datatype score = NaN | NInf | Fin real | PInf

fun np_less :: "score \<Rightarrow> score \<Rightarrow> bool" where
  "np_less NaN _ = False"
| "np_less _ NaN = False"
| "np_less NInf NInf = False"
| "np_less NInf _ = True"
| "np_less (Fin a) (Fin b) = (a < b)"
| "np_less (Fin a) PInf = True"
| "np_less (Fin a) NInf = False"
| "np_less PInf _ = False"

definition np_greater :: "score \<Rightarrow> score \<Rightarrow> bool" where
  "np_greater a b = np_less b a"

datatype comparator = Less | Greater

fun apply_op :: "comparator \<Rightarrow> score \<Rightarrow> score \<Rightarrow> bool" where
  "apply_op Less a b = np_less a b"
| "apply_op Greater a b = np_greater a b"

text \<open>\<open>s.startswith(p)\<close>, \<open>sub in s\<close> and \<open>s.split(c)\<close> of Python strings.\<close>

fun startswith :: "string \<Rightarrow> string \<Rightarrow> bool" where
  "startswith s [] = True"
| "startswith [] (p # ps) = False"
| "startswith (c # cs) (p # ps) = (c = p \<and> startswith cs ps)"

fun contains :: "string \<Rightarrow> string \<Rightarrow> bool" where
  "contains [] sub = (sub = [])"
| "contains (c # cs) sub = (startswith (c # cs) sub \<or> contains cs sub)"

fun split :: "string \<Rightarrow> char \<Rightarrow> string list" where
  "split [] sep = [[]]"
| "split (c # cs) sep =
     (if c = sep then [] # split cs sep
      else (case split cs sep of
              [] \<Rightarrow> [[c]]
            | w # ws \<Rightarrow> (c # w) # ws))"

subsection \<open>History, model, file system and log\<close>

text \<open>
  One epoch's record is a dictionary from metric names to values; the history is a
  dictionary from stream names (\<open>train\<close>, \<open>validate\<close>) to the list of records.
  Both are association lists read with \<open>map_of\<close>; the argument \<open>history\<close> of a hook
  may be \<open>None\<close>.
\<close>

type_synonym epoch_record = "(string \<times> score) list"
type_synonym history = "(string \<times> epoch_record list) list"

text \<open>
  Everything outside the callback object that a hook reads or writes: the owning model
  (its \<open>stop_training\<close> flag, what \<open>to_yaml()\<close> returns and what \<open>save_weights\<close>
  writes), the file system (directories, file contents, and the sequence of paths opened
  for writing), and the arguments of every \<open>logger.warning\<close> call
  (callback name, monitor, available metrics).
\<close>

record world =
  stop_training :: bool
  to_yaml :: string
  weights :: string
  dirs :: "string list"
  files :: "string \<rightharpoonup> string"
  writes :: "string list"
  warnings :: "(string \<times> string \<times> string list) list"

subsection \<open>Callback\<close>

text \<open>
  \<open>Callback.__init__\<close> assigns \<open>monitor\<close> and \<open>monitor_op\<close> only when a monitor is
  given, and \<open>model\<close> is assigned by \<open>_set_model\<close>: each is an attribute that may not
  exist yet.
\<close>

record callback =
  monitor :: "string option"
  monitor_op :: "comparator option"
  model_set :: bool

definition select_monitor_op :: "string option \<Rightarrow> comparator option" where
  "select_monitor_op m =
     (case m of
        None \<Rightarrow> None
      | Some mon \<Rightarrow> Some (if contains mon ''acc'' then Greater else Less))"

definition set_model :: "'a callback_scheme \<Rightarrow> 'a callback_scheme" where
  "set_model self = self\<lparr>model_set := True\<rparr>"

definition history_or_default :: "history option \<Rightarrow> history" where
  "history_or_default h =
     (case h of
        None \<Rightarrow> [(''train'', []), (''validate'', [])]
      | Some [] \<Rightarrow> [(''train'', []), (''validate'', [])]
      | Some d \<Rightarrow> d)"

definition get_monitor_value ::
  "'a callback_scheme \<Rightarrow> history option \<Rightarrow> string \<Rightarrow> world \<Rightarrow> py_error + (score option \<times> world)"
where
  "get_monitor_value self history callback_name w =
     (let history = history_or_default history in
      case monitor self of
        None \<Rightarrow> Inl AttributeError
      | Some mon \<Rightarrow>
          (case map_of history (if startswith mon ''val'' then ''validate'' else ''train'') of
             None \<Rightarrow> Inl KeyError
           | Some hist \<Rightarrow>
               if length hist > 0 then
                 (let current = last hist;
                      metric = last (split mon (CHR ''_''));
                      metric = (if metric = ''acc'' then ''accuracy'' else metric)
                  in case map_of current metric of
                       None \<Rightarrow>
                         Inr (None, w\<lparr>warnings := warnings w @ [(callback_name, mon, map fst current)]\<rparr>)
                     | Some score \<Rightarrow> Inr (Some score, w))
               else Inl UnboundLocalError))"

subsection \<open>EarlyStopping\<close>

record early_stopping = callback +
  patience :: int
  stopped_epoch :: int
  wait :: "int option"
  best :: "score option"

definition EarlyStopping :: "int \<Rightarrow> string option \<Rightarrow> early_stopping" where
  "EarlyStopping p m =
     \<lparr>monitor = m, monitor_op = select_monitor_op m, model_set = False,
      patience = p, stopped_epoch = 0, wait = None, best = None\<rparr>"

definition es_on_train_begin :: "early_stopping \<Rightarrow> py_error + early_stopping" where
  "es_on_train_begin self =
     (case monitor_op self of
        None \<Rightarrow> Inl AttributeError
      | Some op \<Rightarrow> Inr (self\<lparr>wait := Some 0, best := Some (if op = Less then PInf else NInf)\<rparr>))"

definition es_on_epoch_end ::
  "early_stopping \<Rightarrow> int \<Rightarrow> history option \<Rightarrow> world \<Rightarrow> py_error + (early_stopping \<times> world)"
where
  "es_on_epoch_end self epoch history w =
     (if \<not> model_set self then Inl AssertionError
      else case get_monitor_value self history ''Early stopping'' w of
        Inl e \<Rightarrow> Inl e
      | Inr (None, w1) \<Rightarrow> Inr (self, w1)
      | Inr (Some score, w1) \<Rightarrow>
          (case (monitor_op self, best self) of
             (Some op, Some b) \<Rightarrow>
               (let upd =
                  (if apply_op op score b
                   then Inr (self\<lparr>best := Some score, wait := Some 0\<rparr>)
                   else (case wait self of
                           None \<Rightarrow> Inl AttributeError
                         | Some n \<Rightarrow> Inr (self\<lparr>wait := Some (n + 1)\<rparr>)))
                in case upd of
                     Inl e \<Rightarrow> Inl e
                   | Inr self1 \<Rightarrow>
                       (case wait self1 of
                          None \<Rightarrow> Inl AttributeError
                        | Some n \<Rightarrow>
                            if n \<ge> patience self1
                            then Inr (self1\<lparr>stopped_epoch := epoch\<rparr>, w1\<lparr>stop_training := True\<rparr>)
                            else Inr (self1, w1)))
           | _ \<Rightarrow> Inl AttributeError))"

text \<open>
  The calls a training loop makes after \<open>on_train_begin\<close>: \<open>on_epoch_end\<close> once per
  epoch, in order, each with the epoch number and the history as it is at that moment.
  The first exception ends the run.
\<close>

fun es_epochs ::
  "early_stopping \<times> world \<Rightarrow> (int \<times> history option) list \<Rightarrow> py_error + (early_stopping \<times> world)"
where
  "es_epochs st [] = Inr st"
| "es_epochs st ((epoch, history) # rest) =
     (case es_on_epoch_end (fst st) epoch history (snd st) of
        Inl e \<Rightarrow> Inl e
      | Inr st1 \<Rightarrow> es_epochs st1 rest)"

subsection \<open>ModelCheckpoint\<close>

record model_checkpoint = callback +
  filepath :: string
  save_best_only :: bool
  save_weights_only :: bool
  ckpt_best :: "score option"
  path_checked :: bool

definition ModelCheckpoint :: "string \<Rightarrow> string option \<Rightarrow> bool \<Rightarrow> bool \<Rightarrow> model_checkpoint" where
  "ModelCheckpoint fp m sbo swo =
     \<lparr>monitor = m, monitor_op = select_monitor_op m, model_set = False,
      filepath = fp, save_best_only = sbo, save_weights_only = swo,
      ckpt_best = None, path_checked = False\<rparr>"

definition mc_on_train_begin :: "model_checkpoint \<Rightarrow> py_error + model_checkpoint" where
  "mc_on_train_begin self =
     (case monitor_op self of
        None \<Rightarrow> Inl AttributeError
      | Some op \<Rightarrow> Inr (self\<lparr>ckpt_best := Some (if op = Less then PInf else NInf)\<rparr>))"

text \<open>\<open>os.path.join\<close> of two components (POSIX).\<close>

definition path_join :: "string \<Rightarrow> string \<Rightarrow> string" where
  "path_join a b =
     (if startswith b ''/'' then b
      else if a = [] \<or> last a = CHR ''/'' then a @ b
      else a @ ''/'' @ b)"

text \<open>\<open>open(path, "w").write(s)\<close>: the file holds \<open>s\<close> afterwards, and the write is recorded.\<close>

definition write_file :: "string \<Rightarrow> string \<Rightarrow> world \<Rightarrow> world" where
  "write_file path s w = w\<lparr>files := (files w)(path \<mapsto> s), writes := writes w @ [path]\<rparr>"

definition ensure_path_exists :: "string \<Rightarrow> world \<Rightarrow> world" where
  "ensure_path_exists path w =
     (if \<not> (path \<in> set (dirs w) \<or> files w path \<noteq> None)
      then w\<lparr>dirs := dirs w @ [path]\<rparr>
      else w)"

definition mc_ensure_path_exists :: "model_checkpoint \<Rightarrow> world \<Rightarrow> model_checkpoint \<times> world" where
  "mc_ensure_path_exists self w =
     (if path_checked self then (self, w)
      else (self\<lparr>path_checked := True\<rparr>, ensure_path_exists (filepath self) w))"

definition save_model :: "model_checkpoint \<Rightarrow> world \<Rightarrow> py_error + (model_checkpoint \<times> world)" where
  "save_model self w =
     (case mc_ensure_path_exists self w of
        (self1, w1) \<Rightarrow>
          if \<not> model_set self1 then Inl AttributeError
          else
            (let w2 = (if \<not> save_weights_only self1
                       then write_file (path_join (filepath self1) ''arch.yaml'') (to_yaml w1) w1
                       else w1)
             in Inr (self1, write_file (path_join (filepath self1) ''weights.h5'') (weights w2) w2)))"

definition mc_on_epoch_end ::
  "model_checkpoint \<Rightarrow> int \<Rightarrow> history option \<Rightarrow> world \<Rightarrow> py_error + (model_checkpoint \<times> world)"
where
  "mc_on_epoch_end self epoch history w =
     (if save_best_only self then
        (case get_monitor_value self history ''Model checkpoint'' w of
           Inl e \<Rightarrow> Inl e
         | Inr (None, w1) \<Rightarrow> Inr (self, w1)
         | Inr (Some score, w1) \<Rightarrow>
             (case (monitor_op self, ckpt_best self) of
                (Some op, Some b) \<Rightarrow>
                  if apply_op op score b
                  then save_model (self\<lparr>ckpt_best := Some score\<rparr>) w1
                  else Inr (self, w1)
              | _ \<Rightarrow> Inl AttributeError))
      else save_model self w)"

subsection \<open>Notions used to state the properties\<close>

text \<open>
  The stream of the history that \<open>_get_monitor_value\<close> selects, its latest record, and
  the metric name looked up in it.
\<close>

definition selected_stream :: "'a callback_scheme \<Rightarrow> history option \<Rightarrow> epoch_record list option" where
  "selected_stream self history =
     (case monitor self of
        None \<Rightarrow> None
      | Some mon \<Rightarrow>
          map_of (history_or_default history) (if startswith mon ''val'' then ''validate'' else ''train''))"

definition metric_name :: "string \<Rightarrow> string" where
  "metric_name mon =
     (let metric = last (split mon (CHR ''_'')) in if metric = ''acc'' then ''accuracy'' else metric)"

definition latest_record :: "'a callback_scheme \<Rightarrow> history option \<Rightarrow> epoch_record option" where
  "latest_record self history =
     (case selected_stream self history of
        None \<Rightarrow> None
      | Some hist \<Rightarrow> if hist = [] then None else Some (last hist))"

text \<open>The attributes that \<open>EarlyStopping.on_train_begin\<close> has assigned, with a counter that is not negative.\<close>

definition es_ready :: "early_stopping \<Rightarrow> bool" where
  "es_ready self \<longleftrightarrow> monitor_op self \<noteq> None \<and> best self \<noteq> None \<and> (\<exists>n. wait self = Some n \<and> 0 \<le> n)"

text \<open>
  Concrete values: a world with nothing on disk, a history with one \<open>loss\<close> record per
  epoch in both streams, and callbacks as they are after \<open>_set_model\<close> and
  \<open>on_train_begin\<close>.
\<close>

definition world0 :: world where
  "world0 = \<lparr>stop_training = False, to_yaml = ''arch'', weights = ''w1'', dirs = [],
             files = Map.empty, writes = [], warnings = []\<rparr>"

definition loss_history :: "real list \<Rightarrow> history option" where
  "loss_history vs =
     Some [(''train'', map (\<lambda>v. [(''loss'', Fin v)]) vs),
           (''validate'', map (\<lambda>v. [(''loss'', Fin v)]) vs)]"

definition es_started :: "int \<Rightarrow> string \<Rightarrow> early_stopping" where
  "es_started p mon =
     \<lparr>monitor = Some mon, monitor_op = select_monitor_op (Some mon), model_set = True,
      patience = p, stopped_epoch = 0, wait = Some 0,
      best = Some (if contains mon ''acc'' then NInf else PInf)\<rparr>"

definition mc_started :: "string \<Rightarrow> string \<Rightarrow> bool \<Rightarrow> bool \<Rightarrow> score \<Rightarrow> model_checkpoint" where
  "mc_started fp mon sbo swo b =
     \<lparr>monitor = Some mon, monitor_op = select_monitor_op (Some mon), model_set = True,
      filepath = fp, save_best_only = sbo, save_weights_only = swo,
      ckpt_best = Some b, path_checked = False\<rparr>"

section \<open>Block-local attention (models/t2t.py)\<close>

subsection \<open>Tensors\<close>

text \<open>
  A tensor is its shape and its elements, addressed by index lists. Only the elements
  at valid indices (as long as the shape, each component below the dimension) belong to
  the tensor. Shapes are static: every dimension is a known number, which is also the
  value a dimension resolved at run time has.
\<close>

record 'a tensor =
  shape :: "nat list"
  elem :: "nat list \<Rightarrow> 'a"

definition valid_index :: "nat list \<Rightarrow> nat list \<Rightarrow> bool" where
  "valid_index shp ix = list_all2 (<) ix shp"

text \<open>Row-major position of an index in the flattened tensor, and back.\<close>

fun ravel :: "nat list \<Rightarrow> nat list \<Rightarrow> nat" where
  "ravel (d # ds) (i # ix) = i * prod_list ds + ravel ds ix"
| "ravel _ _ = 0"

fun unravel :: "nat list \<Rightarrow> nat \<Rightarrow> nat list" where
  "unravel [] n = []"
| "unravel (d # ds) n = (n div prod_list ds) # unravel ds (n mod prod_list ds)"

definition all_indices :: "nat list \<Rightarrow> nat list list" where
  "all_indices shp = map (unravel shp) [0..<prod_list shp]"

definition map_tensor :: "('a \<Rightarrow> 'b) \<Rightarrow> 'a tensor \<Rightarrow> 'b tensor" where
  "map_tensor f t = \<lparr>shape = shape t, elem = (\<lambda>ix. f (elem t ix))\<rparr>"

text \<open>Sequencing of operations that may fail: the first failure is the result.\<close>

definition and_then :: "py_error + 'a \<Rightarrow> ('a \<Rightarrow> py_error + 'b) \<Rightarrow> py_error + 'b" where
  "and_then m f = (case m of Inl e \<Rightarrow> Inl e | Inr a \<Rightarrow> f a)"

subsection \<open>Operations of the tensor runtime\<close>

text \<open>
  \<open>tf.reshape\<close>: the new shape may hold one \<open>-1\<close>, whose dimension is inferred; the
  inference fails when the known dimensions multiply to zero or do not divide the size.
\<close>

definition infer_shape :: "nat \<Rightarrow> int list \<Rightarrow> nat list option" where
  "infer_shape n new =
     (if list_all (\<lambda>d. 0 \<le> d) new then
        (if prod_list (map nat new) = n then Some (map nat new) else None)
      else if count_list new (- 1) = 1 \<and> list_all (\<lambda>d. - 1 \<le> d) new then
        (let known = prod_list (map nat (filter (\<lambda>d. d \<noteq> - 1) new)) in
         if known \<noteq> 0 \<and> n mod known = 0
         then Some (map (\<lambda>d. if d = - 1 then n div known else nat d) new)
         else None)
      else None)"

definition tf_reshape :: "'a tensor \<Rightarrow> int list \<Rightarrow> py_error + 'a tensor" where
  "tf_reshape t new =
     (case infer_shape (prod_list (shape t)) new of
        None \<Rightarrow> Inl InvalidArgumentError
      | Some shp \<Rightarrow> Inr \<lparr>shape = shp, elem = (\<lambda>ix. elem t (unravel (shape t) (ravel shp ix)))\<rparr>)"

text \<open>
  \<open>tf.transpose(t, perm)\<close>: dimension \<open>k\<close> of the result is dimension \<open>perm[k]\<close> of
  \<open>t\<close>.
\<close>

fun index_of :: "nat list \<Rightarrow> nat \<Rightarrow> nat" where
  "index_of [] d = 0"
| "index_of (p # ps) d = (if p = d then 0 else Suc (index_of ps d))"

definition tf_transpose :: "'a tensor \<Rightarrow> nat list \<Rightarrow> py_error + 'a tensor" where
  "tf_transpose t perm =
     (if length perm = length (shape t) \<and> distinct perm \<and> list_all (\<lambda>p. p < length perm) perm
      then Inr \<lparr>shape = map (\<lambda>p. shape t ! p) perm,
                elem = (\<lambda>ix. elem t (map (\<lambda>d. ix ! index_of perm d) [0..<length perm]))\<rparr>
      else Inl InvalidArgumentError)"

text \<open>
  \<open>tf.gather(params, indices)\<close> along axis 0; an index outside the first dimension is
  an error (as on a CPU).
\<close>

definition tf_gather :: "'a tensor \<Rightarrow> int tensor \<Rightarrow> py_error + 'a tensor" where
  "tf_gather params indices =
     (case shape params of
        [] \<Rightarrow> Inl InvalidArgumentError
      | d # ds \<Rightarrow>
          if list_all (\<lambda>jx. 0 \<le> elem indices jx \<and> elem indices jx < int d) (all_indices (shape indices))
          then Inr \<lparr>shape = shape indices @ ds,
                    elem = (\<lambda>ix. elem params
                              (nat (elem indices (take (length (shape indices)) ix))
                                 # drop (length (shape indices)) ix))\<rparr>
          else Inl InvalidArgumentError)"

text \<open>
  \<open>tf.scatter_nd(indices, updates, shape)\<close> for indices of shape \<open>[n, 1]\<close>: row \<open>i\<close> of
  \<open>updates\<close> is added into row \<open>indices[i, 0]\<close> of a tensor of zeros.
\<close>

definition tf_scatter_nd :: "int tensor \<Rightarrow> 'a::comm_monoid_add tensor \<Rightarrow> nat list \<Rightarrow> py_error + 'a tensor" where
  "tf_scatter_nd indices updates shp =
     (case (shape indices, shp) of
        ([n, k], d # ds) \<Rightarrow>
          if k = 1 \<and> shape updates = n # ds
             \<and> list_all (\<lambda>i. 0 \<le> elem indices [i, 0] \<and> elem indices [i, 0] < int d) [0..<n]
          then Inr \<lparr>shape = shp,
                    elem = (\<lambda>ix. \<Sum>i\<leftarrow>[0..<n].
                              if elem indices [i, 0] = int (hd ix) then elem updates (i # tl ix) else 0)\<rparr>
          else Inl InvalidArgumentError
      | _ \<Rightarrow> Inl InvalidArgumentError)"

text \<open>\<open>tf.pad\<close> with zeros: one pair (before, after) per dimension.\<close>

definition tf_pad :: "'a::zero tensor \<Rightarrow> (nat \<times> nat) list \<Rightarrow> py_error + 'a tensor" where
  "tf_pad t paddings =
     (if length paddings = length (shape t)
      then Inr \<lparr>shape = map2 (\<lambda>d (b, a). b + d + a) (shape t) paddings,
                elem = (\<lambda>ix. if list_all2 (\<lambda>i (b, a). b \<le> i) ix paddings
                                 \<and> valid_index (shape t) (map2 (\<lambda>i (b, a). i - b) ix paddings)
                              then elem t (map2 (\<lambda>i (b, a). i - b) ix paddings) else 0)\<rparr>
      else Inl InvalidArgumentError)"

text \<open>\<open>tf.slice(t, begin, size)\<close>; a size of \<open>-1\<close> takes everything from the start on.\<close>

definition tf_slice :: "'a tensor \<Rightarrow> nat list \<Rightarrow> int list \<Rightarrow> py_error + 'a tensor" where
  "tf_slice t start sizes =
     (if length start = length (shape t) \<and> length sizes = length (shape t)
         \<and> list_all (\<lambda>(d, b, s). - 1 \<le> s \<and> (if s = - 1 then b \<le> d else b + nat s \<le> d))
              (zip (shape t) (zip start sizes))
      then Inr \<lparr>shape = map (\<lambda>(d, b, s). if s = - 1 then d - b else nat s) (zip (shape t) (zip start sizes)),
                elem = (\<lambda>ix. elem t (map2 (+) start ix))\<rparr>
      else Inl InvalidArgumentError)"

definition tf_range :: "nat \<Rightarrow> int tensor" where
  "tf_range n = \<lparr>shape = [n], elem = (\<lambda>ix. int (hd ix))\<rparr>"

definition tf_eye :: "nat \<Rightarrow> real tensor" where
  "tf_eye n = \<lparr>shape = [n, n], elem = (\<lambda>ix. if ix ! 0 = ix ! 1 then 1 else 0)\<rparr>"

text \<open>
  \<open>tf.cast(_, tf.float32)\<close> of an integer: the nearest number with a significand of 24
  bits, ties to the even significand. \<open>tf.cast(_, tf.int32)\<close> of a float: truncation
  (values beyond the range of int32 are not modelled).
\<close>

fun bit_length :: "nat \<Rightarrow> nat" where
  "bit_length n = (if n = 0 then 0 else Suc (bit_length (n div 2)))"

declare bit_length.simps [simp del]

definition float32_of_nat :: "nat \<Rightarrow> nat" where
  "float32_of_nat n =
     (let e = bit_length n - 24; q = n div 2 ^ e; r = n mod 2 ^ e
      in if 2 * r < 2 ^ e \<or> (2 * r = 2 ^ e \<and> even q) then q * 2 ^ e else (q + 1) * 2 ^ e)"

definition float32_of_int :: "int \<Rightarrow> real" where
  "float32_of_int i =
     (if i < 0 then - real (float32_of_nat (nat (- i))) else real (float32_of_nat (nat i)))"

definition int32_of_float :: "real \<Rightarrow> int" where
  "int32_of_float x = (if x < 0 then \<lceil>x\<rceil> else \<lfloor>x\<rfloor>)"

text \<open>
  \<open>tf.nn.conv2d\<close> with \<open>padding="VALID"\<close> on an input \<open>[n, h, w, c_in]\<close> and a kernel
  \<open>[kh, kw, c_in, c_out]\<close>. The size of an output dimension is the quotient, truncated
  towards zero, of \<open>input - kernel + stride\<close> by the stride, and must not be negative.
  Sums and products are exact.
\<close>

definition conv_output_size :: "nat \<Rightarrow> nat \<Rightarrow> nat \<Rightarrow> nat option" where
  "conv_output_size n k s =
     (if s = 0 then None
      else if n + s \<ge> k then Some ((n + s - k) div s)
      else if (k - (n + s)) div s = 0 then Some 0
      else None)"

definition tf_conv2d_valid :: "real tensor \<Rightarrow> real tensor \<Rightarrow> nat list \<Rightarrow> py_error + real tensor" where
  "tf_conv2d_valid input filters strides =
     (case (shape input, shape filters, strides) of
        ([n, h, w, c], [kh, kw, kc, co], [s0, sh, sw, s3]) \<Rightarrow>
          if c = kc \<and> s0 = 1 \<and> s3 = 1 then
            (case (conv_output_size h kh sh, conv_output_size w kw sw) of
               (Some oh, Some ow) \<Rightarrow>
                 Inr \<lparr>shape = [n, oh, ow, co],
                      elem = (\<lambda>ix. \<Sum>u\<leftarrow>[0..<kh]. \<Sum>v\<leftarrow>[0..<kw]. \<Sum>ci\<leftarrow>[0..<c].
                                elem input [ix ! 0, ix ! 1 * sh + u, ix ! 2 * sw + v, ci]
                                  * elem filters [u, v, ci, ix ! 3])\<rparr>
             | _ \<Rightarrow> Inl InvalidArgumentError)
          else Inl InvalidArgumentError
      | _ \<Rightarrow> Inl InvalidArgumentError)"

subsection \<open>Shape helpers\<close>

definition shape_list :: "'a tensor \<Rightarrow> nat list" where
  "shape_list input_tensor = shape input_tensor"

definition reshape_range :: "'a tensor \<Rightarrow> nat \<Rightarrow> nat \<Rightarrow> nat list \<Rightarrow> py_error + 'a tensor" where
  "reshape_range tensor i j shp =
     (let t_shape = shape_list tensor;
          target_shape = take i t_shape @ shp @ drop j t_shape
      in tf_reshape tensor (map int target_shape))"

subsection \<open>Padding to a multiple of the block shape\<close>

text \<open>Python's \<open>-n % b\<close> for a positive \<open>b\<close>.\<close>

definition neg_mod :: "nat \<Rightarrow> nat \<Rightarrow> nat" where
  "neg_mod n b = nat ((- int n) mod int b)"

definition pad_to_multiple_2d :: "'a::zero tensor \<Rightarrow> nat \<times> nat \<Rightarrow> py_error + 'a tensor" where
  "pad_to_multiple_2d x block_shape =
     (let old_shape = shape x in
      if old_shape = [] then Inl IndexError
      else if length old_shape = 4 then
        (if fst block_shape = 0 \<or> snd block_shape = 0 then Inl ZeroDivisionError
         else tf_pad x [(0, 0),
                        (0, neg_mod (shape_list x ! 1) (fst block_shape)),
                        (0, neg_mod (shape_list x ! 2) (snd block_shape)),
                        (0, 0)])
      else if length old_shape = 5 then
        (if fst block_shape = 0 \<or> snd block_shape = 0 then Inl ZeroDivisionError
         else tf_pad x [(0, 0), (0, 0),
                        (0, neg_mod (shape_list x ! 2) (fst block_shape)),
                        (0, neg_mod (shape_list x ! 3) (snd block_shape)),
                        (0, 0)])
      else Inl UnboundLocalError)"

subsection \<open>Gather indices, gather and scatter\<close>

definition gather_indices_2d :: "'a tensor \<Rightarrow> nat \<times> nat \<Rightarrow> nat \<times> nat \<Rightarrow> py_error + int tensor" where
  "gather_indices_2d x block_shape block_stride =
     and_then (reshape_range (tf_eye (fst block_shape * snd block_shape)) 0 1
                 [fst block_shape, snd block_shape, 1]) (\<lambda>kernel.
     let x_shape = shape_list x in
     if length x_shape < 4 then Inl IndexError
     else
       and_then (tf_reshape (tf_range (x_shape ! 2 * x_shape ! 3))
                   [1, int (x_shape ! 2), int (x_shape ! 3), 1]) (\<lambda>indices.
       and_then (tf_conv2d_valid (map_tensor float32_of_int indices) kernel
                   [1, fst block_stride, snd block_stride, 1]) (\<lambda>indices.
       let dims = take 3 (shape_list indices);
           num_blocks = prod_list dims
       in and_then (tf_reshape indices [int num_blocks, - 1]) (\<lambda>indices.
          Inr (map_tensor int32_of_float indices)))))"

definition gather_blocks_2d :: "'a tensor \<Rightarrow> int tensor \<Rightarrow> py_error + 'a tensor" where
  "gather_blocks_2d x indices =
     (let x_shape = shape_list x in
      and_then (reshape_range x 2 4 [prod_list (take 2 (drop 2 x_shape))]) (\<lambda>x.
      and_then (tf_transpose x [2, 0, 1, 3]) (\<lambda>x_t.
      and_then (tf_gather x_t indices) (\<lambda>x_new.
      tf_transpose x_new [2, 3, 0, 1, 4]))))"

definition scatter_blocks_2d :: "'a::comm_monoid_add tensor \<Rightarrow> int tensor \<Rightarrow> nat list \<Rightarrow> py_error + 'a tensor" where
  "scatter_blocks_2d x indices shp =
     (let x_shape = shape_list x in
      if length x_shape < 2 then Inl IndexError
      else
        and_then (tf_reshape x [int (x_shape ! 0), int (x_shape ! 1), - 1, int (last x_shape)]) (\<lambda>x_r.
        and_then (tf_transpose x_r [2, 0, 1, 3]) (\<lambda>x_t.
        let x_t_shape = shape_list x_t in
        and_then (tf_reshape indices [- 1, 1]) (\<lambda>indices.
        and_then (tf_scatter_nd indices x_t x_t_shape) (\<lambda>scattered_x.
        and_then (tf_transpose scattered_x [1, 2, 0, 3]) (\<lambda>scattered_x.
        tf_reshape scattered_x (map int shp)))))))"

subsection \<open>Attention\<close>

text \<open>
  Broadcasting of two shapes, aligned at the last dimension: two dimensions agree when
  they are equal or one of them is 1. An operand is read at the last components of the
  result's index, with 0 where its own dimension is 1.
\<close>

fun broadcast_rev :: "nat list \<Rightarrow> nat list \<Rightarrow> nat list option" where
  "broadcast_rev [] ys = Some ys"
| "broadcast_rev xs [] = Some xs"
| "broadcast_rev (x # xs) (y # ys) =
     (if x = y \<or> x = 1 \<or> y = 1
      then map_option ((#) (if x = 1 then y else x)) (broadcast_rev xs ys)
      else None)"

definition broadcast_shapes :: "nat list \<Rightarrow> nat list \<Rightarrow> nat list option" where
  "broadcast_shapes xs ys = map_option rev (broadcast_rev (rev xs) (rev ys))"

definition broadcast_index :: "nat list \<Rightarrow> nat list \<Rightarrow> nat list" where
  "broadcast_index shp ix =
     map2 (\<lambda>d i. if d = 1 then 0 else i) shp (drop (length ix - length shp) ix)"

definition tf_add :: "real tensor \<Rightarrow> real tensor \<Rightarrow> py_error + real tensor" where
  "tf_add a b =
     (case broadcast_shapes (shape a) (shape b) of
        None \<Rightarrow> Inl InvalidArgumentError
      | Some shp \<Rightarrow>
          Inr \<lparr>shape = shp,
               elem = (\<lambda>ix. elem a (broadcast_index (shape a) ix) + elem b (broadcast_index (shape b) ix))\<rparr>)"

text \<open>
  \<open>tf.matmul(a, b, transpose_b)\<close> on the last two dimensions, the leading dimensions
  being broadcast.
\<close>

definition tf_matmul :: "real tensor \<Rightarrow> real tensor \<Rightarrow> bool \<Rightarrow> py_error + real tensor" where
  "tf_matmul a b transpose_b =
     (let ra = length (shape a); rb = length (shape b) in
      if ra < 2 \<or> rb < 2 then Inl InvalidArgumentError
      else
        (let m = shape a ! (ra - 2);
             ka = shape a ! (ra - 1);
             kb = (if transpose_b then shape b ! (rb - 1) else shape b ! (rb - 2));
             n = (if transpose_b then shape b ! (rb - 2) else shape b ! (rb - 1))
         in case broadcast_shapes (take (ra - 2) (shape a)) (take (rb - 2) (shape b)) of
              None \<Rightarrow> Inl InvalidArgumentError
            | Some batch \<Rightarrow>
                if ka = kb then
                  Inr \<lparr>shape = batch @ [m, n],
                       elem = (\<lambda>ix.
                         let bx = take (length batch) ix;
                             i = ix ! length batch;
                             j = ix ! Suc (length batch)
                         in \<Sum>c\<leftarrow>[0..<ka].
                              elem a (broadcast_index (take (ra - 2) (shape a)) bx @ [i, c])
                                * elem b (broadcast_index (take (rb - 2) (shape b)) bx
                                            @ (if transpose_b then [j, c] else [c, j])))\<rparr>
                else Inl InvalidArgumentError))"

text \<open>\<open>tf.nn.softmax\<close> over the last dimension, \<open>tf.reduce_sum(_, axis=-1)\<close> and \<open>tf.expand_dims\<close>.\<close>

definition tf_softmax :: "real tensor \<Rightarrow> py_error + real tensor" where
  "tf_softmax t =
     (if shape t = [] then Inl InvalidArgumentError
      else Inr \<lparr>shape = shape t,
                elem = (\<lambda>ix. exp (elem t ix)
                           / (\<Sum>c\<leftarrow>[0..<last (shape t)]. exp (elem t (butlast ix @ [c]))))\<rparr>)"

definition tf_reduce_sum_last :: "'a::comm_monoid_add tensor \<Rightarrow> py_error + 'a tensor" where
  "tf_reduce_sum_last t =
     (if shape t = [] then Inl InvalidArgumentError
      else Inr \<lparr>shape = butlast (shape t),
                elem = (\<lambda>ix. \<Sum>c\<leftarrow>[0..<last (shape t)]. elem t (ix @ [c]))\<rparr>)"

definition tf_expand_dims :: "'a tensor \<Rightarrow> int \<Rightarrow> py_error + 'a tensor" where
  "tf_expand_dims t axis =
     (let r = int (length (shape t));
          pos = (if axis < 0 then axis + r + 1 else axis)
      in if 0 \<le> pos \<and> pos \<le> r
         then Inr \<lparr>shape = take (nat pos) (shape t) @ [1] @ drop (nat pos) (shape t),
                   elem = (\<lambda>ix. elem t (take (nat pos) ix @ drop (Suc (nat pos)) ix))\<rparr>
         else Inl InvalidArgumentError)"

definition embedding_to_padding :: "real tensor \<Rightarrow> py_error + real tensor" where
  "embedding_to_padding emb =
     and_then (tf_reduce_sum_last (map_tensor abs emb)) (\<lambda>emb_sum.
     Inr (map_tensor (\<lambda>b. if b then 1 else 0) (map_tensor (\<lambda>s. s = 0) emb_sum)))"

text \<open>
  \<open>dot_product_attention\<close> as \<open>local_attention_2d\<close> calls it: all tensors are float32,
  so \<open>cast_like\<close> and \<open>maybe_upcast\<close> return their argument; the dropout rate is 0.0,
  a keep probability of 1, for which the dropout returns its input; no weights are
  recorded.
\<close>

definition cast_like :: "real tensor \<Rightarrow> real tensor \<Rightarrow> real tensor" where
  "cast_like x y = x"

definition maybe_upcast :: "real tensor \<Rightarrow> real tensor" where
  "maybe_upcast logits = logits"

definition attention_logits :: "real tensor \<Rightarrow> real tensor \<Rightarrow> real tensor option \<Rightarrow> py_error + real tensor" where
  "attention_logits q k bias =
     and_then (tf_matmul q k True) (\<lambda>logits.
     and_then (case bias of
                 None \<Rightarrow> Inr logits
               | Some b \<Rightarrow> tf_add logits (cast_like b logits)) (\<lambda>logits.
     Inr (maybe_upcast logits)))"

definition dot_product_attention ::
  "real tensor \<Rightarrow> real tensor \<Rightarrow> real tensor \<Rightarrow> real tensor option \<Rightarrow> py_error + real tensor"
where
  "dot_product_attention q k v bias =
     and_then (attention_logits q k bias) (\<lambda>logits.
     and_then (tf_softmax logits) (\<lambda>weights.
     let weights = cast_like weights q in
     tf_matmul weights v False))"

definition attention_bias :: "real tensor \<Rightarrow> py_error + real tensor" where
  "attention_bias k_new =
     and_then (embedding_to_padding k_new) (\<lambda>padding.
     tf_expand_dims (map_tensor (\<lambda>p. p * (- 1000000000)) padding) (- 2))"

definition local_attention_2d ::
  "real tensor \<Rightarrow> real tensor \<Rightarrow> real tensor \<Rightarrow> nat \<times> nat \<Rightarrow> nat \<times> nat \<Rightarrow> py_error + real tensor"
where
  "local_attention_2d q k v query_shape memory_flange =
     (let v_shape = shape_list v in
      and_then (pad_to_multiple_2d q query_shape) (\<lambda>q.
      and_then (pad_to_multiple_2d k query_shape) (\<lambda>k.
      and_then (pad_to_multiple_2d v query_shape) (\<lambda>v.
      let paddings = [(0, 0), (0, 0), (fst memory_flange, snd memory_flange),
                      (fst memory_flange, snd memory_flange), (0, 0)] in
      and_then (tf_pad k paddings) (\<lambda>k.
      and_then (tf_pad v paddings) (\<lambda>v.
      and_then (gather_indices_2d q query_shape query_shape) (\<lambda>q_indices.
      and_then (gather_blocks_2d q q_indices) (\<lambda>q_new.
      let memory_shape = (fst query_shape + 2 * fst memory_flange,
                          snd query_shape + 2 * snd memory_flange) in
      and_then (gather_indices_2d k memory_shape query_shape) (\<lambda>k_and_v_indices.
      and_then (gather_blocks_2d k k_and_v_indices) (\<lambda>k_new.
      and_then (gather_blocks_2d v k_and_v_indices) (\<lambda>v_new.
      and_then (attention_bias k_new) (\<lambda>bias.
      and_then (dot_product_attention q_new k_new v_new (Some bias)) (\<lambda>output.
      let padded_q_shape = shape_list q in
      and_then (scatter_blocks_2d output q_indices padded_q_shape) (\<lambda>output.
      tf_slice output [0, 0, 0, 0, 0]
        [- 1, - 1, int (v_shape ! 2), int (v_shape ! 3), - 1]))))))))))))))"

subsection \<open>Notions used to state the properties of the tensor operations\<close>

text \<open>The quotient rounded up, a tensor of zeros, and a tensor whose elements are 1, 2, 3, ... in row-major order.\<close>

definition ceil_div :: "nat \<Rightarrow> nat \<Rightarrow> nat" where
  "ceil_div a b = (a + b - 1) div b"

definition zeros :: "nat list \<Rightarrow> real tensor" where
  "zeros shp = \<lparr>shape = shp, elem = (\<lambda>ix. 0)\<rparr>"

definition ramp :: "nat list \<Rightarrow> real tensor" where
  "ramp shp = \<lparr>shape = shp, elem = (\<lambda>ix. real (ravel shp ix) + 1)\<rparr>"

text \<open>
  The rows of a tensor of rank 2, a row of the result of an operation that may fail, and
  the position in the grid of element \<open>a\<close> of block \<open>n\<close>, for blocks \<open>bw\<close> wide laid
  out \<open>ow\<close> to a row with strides \<open>sh\<close> and \<open>sw\<close> on a grid of width \<open>W\<close>.
\<close>

definition row_of :: "'a tensor \<Rightarrow> nat \<Rightarrow> 'a list" where
  "row_of t n = map (\<lambda>a. elem t [n, a]) [0..<shape t ! 1]"

definition rows_of :: "'a tensor \<Rightarrow> 'a list list" where
  "rows_of t = map (row_of t) [0..<shape t ! 0]"

definition result_row :: "py_error + 'a tensor \<Rightarrow> nat \<Rightarrow> 'a list option" where
  "result_row res n = (case res of Inl e \<Rightarrow> None | Inr t \<Rightarrow> Some (row_of t n))"

definition block_position :: "nat \<Rightarrow> nat \<Rightarrow> nat \<Rightarrow> nat \<Rightarrow> nat \<Rightarrow> nat \<Rightarrow> nat \<Rightarrow> nat" where
  "block_position W bw sh sw ow n a =
     (n div ow * sh + a div bw) * W + (n mod ow * sw + a mod bw)"




section \<open>Properties of the callbacks\<close>

subsection \<open>Reading the monitored metric\<close>

lemma get_monitor_value_monitor:
  "monitor a = monitor b \<Longrightarrow> get_monitor_value a h n w = get_monitor_value b h n w"
  by (simp add: get_monitor_value_def)

lemma get_monitor_value_Some:
  assumes "get_monitor_value a h n w = Inr (Some s, w')"
  shows "w' = w" and "get_monitor_value a h n v = Inr (Some s, v)"
  using assms
  by (auto simp: get_monitor_value_def Let_def split: option.splits if_splits)

lemma get_monitor_value_stream:
  "get_monitor_value self h n w =
     (case selected_stream self h of
        None \<Rightarrow> (if monitor self = None then Inl AttributeError else Inl KeyError)
      | Some hist \<Rightarrow>
          if hist = [] then Inl UnboundLocalError
          else (case map_of (last hist) (metric_name (the (monitor self))) of
                  None \<Rightarrow> Inr (None, w\<lparr>warnings := warnings w @ [(n, the (monitor self), map fst (last hist))]\<rparr>)
                | Some sc \<Rightarrow> Inr (Some sc, w)))"
  by (auto simp: get_monitor_value_def selected_stream_def metric_name_def Let_def split: option.splits)

lemma get_monitor_value_missing:
  assumes "monitor self = Some mon" "latest_record self history = Some current"
    "map_of current (metric_name mon) = None"
  shows "get_monitor_value self history name w =
           Inr (None, w\<lparr>warnings := warnings w @ [(name, mon, map fst current)]\<rparr>)"
  using assms
  by (auto simp: get_monitor_value_stream latest_record_def split: option.splits if_splits)

lemma get_monitor_value_present:
  assumes "monitor self = Some mon" "latest_record self history = Some current"
    "map_of current (metric_name mon) = Some sc"
  shows "get_monitor_value self history name w = Inr (Some sc, w)"
  using assms
  by (auto simp: get_monitor_value_stream latest_record_def split: option.splits if_splits)

lemma es_started_eq:
  "es_on_train_begin (set_model (EarlyStopping p (Some mon))) = Inr (es_started p mon)"
  by (simp add: es_on_train_begin_def set_model_def EarlyStopping_def es_started_def
      select_monitor_op_def)

lemmas callback_eval =
  es_on_epoch_end_def mc_on_epoch_end_def get_monitor_value_def history_or_default_def
  loss_history_def es_started_def select_monitor_op_def world0_def np_greater_def
  selected_stream_def latest_record_def metric_name_def set_model_def EarlyStopping_def
  ModelCheckpoint_def save_model_def mc_ensure_path_exists_def ensure_path_exists_def
  write_file_def path_join_def mc_on_train_begin_def es_on_train_begin_def

text \<open>
  Claim C3. When the selected stream of the history (\<open>validate\<close> for a monitor
  starting with \<open>val\<close>, \<open>train\<close> otherwise; both empty when no history is given) is
  empty, \<open>_get_monitor_value\<close> raises \<open>UnboundLocalError\<close>: \<open>current\<close> is read
  without having been assigned. Whenever it returns (a score, or \<open>None\<close> after the
  warning), the selected stream is not empty.
\<close>

theorem empty_stream_unbound_local:
  "(selected_stream self history = Some [] \<longrightarrow>
      get_monitor_value self history name w = Inl UnboundLocalError) \<and>
   (\<forall>r. get_monitor_value self history name w = Inr r \<longrightarrow>
      (\<exists>hist. selected_stream self history = Some hist \<and> hist \<noteq> []))"
  by (auto simp: get_monitor_value_stream split: option.splits if_splits)

theorem empty_stream_unbound_local_witness:
  "get_monitor_value (EarlyStopping 5 (Some ''val_acc'')) None ''Early stopping'' world0
     = Inl UnboundLocalError \<and>
   (\<exists>hist. selected_stream (EarlyStopping 5 (Some ''val_acc'')) (loss_history [1]) = Some hist
      \<and> hist \<noteq> [])"
proof -
  let ?cb = "EarlyStopping 5 (Some ''val_acc'')"
  have a: "selected_stream ?cb None = Some []" by (simp add: callback_eval)
  have b: "get_monitor_value ?cb (loss_history [1]) ''Early stopping'' world0
     = Inr (None, world0\<lparr>warnings := [(''Early stopping'', ''val_acc'', [''loss''])]\<rparr>)"
    by (simp add: callback_eval)
  from empty_stream_unbound_local [of ?cb None "''Early stopping''" world0] a
       empty_stream_unbound_local [of ?cb "loss_history [1]" "''Early stopping''" world0] b
  show ?thesis by simp
qed

subsection \<open>Missing metric\<close>

text \<open>
  Claim C2 (as amended). For an EarlyStopping callback with a model attached, and for a
  ModelCheckpoint callback with \<open>save_best_only\<close> set: when the latest record of the
  selected stream does not contain the monitored metric, \<open>on_epoch_end\<close> returns
  normally with the callback unchanged and the world unchanged except for one more
  warning (no stop signal, no write).
\<close>

theorem missing_metric_skips:
  assumes "monitor es = Some mon" "latest_record es history = Some current"
    and "monitor mc = Some mon'" "latest_record mc history' = Some current'"
    and "map_of current (metric_name mon) = None" "map_of current' (metric_name mon') = None"
    and "model_set es" "save_best_only mc"
  shows "es_on_epoch_end es epoch history w =
           Inr (es, w\<lparr>warnings := warnings w @ [(''Early stopping'', mon, map fst current)]\<rparr>) \<and>
         mc_on_epoch_end mc epoch' history' w' =
           Inr (mc, w'\<lparr>warnings := warnings w' @ [(''Model checkpoint'', mon', map fst current')]\<rparr>)"
  using assms
  by (simp add: es_on_epoch_end_def mc_on_epoch_end_def get_monitor_value_missing)

theorem missing_metric_skips_witness:
  "es_on_epoch_end (es_started 5 ''val_acc'') 0 (loss_history [1]) world0
     = Inr (es_started 5 ''val_acc'',
            world0\<lparr>warnings := [(''Early stopping'', ''val_acc'', [''loss''])]\<rparr>) \<and>
   mc_on_epoch_end (mc_started ''ckpt'' ''val_acc'' True False NInf) 0 (loss_history [1]) world0
     = Inr (mc_started ''ckpt'' ''val_acc'' True False NInf,
            world0\<lparr>warnings := [(''Model checkpoint'', ''val_acc'', [''loss''])]\<rparr>)"
proof -
  let ?es = "es_started 5 ''val_acc''"
  let ?mc = "mc_started ''ckpt'' ''val_acc'' True False NInf"
  have a: "monitor ?es = Some ''val_acc''" "latest_record ?es (loss_history [1]) = Some [(''loss'', Fin 1)]"
    "monitor ?mc = Some ''val_acc''" "latest_record ?mc (loss_history [1]) = Some [(''loss'', Fin 1)]"
    "map_of [(''loss'', Fin 1)] (metric_name ''val_acc'') = None"
    "map_of [(''loss'', Fin 1)] (metric_name ''val_acc'') = None"
    "model_set ?es" "save_best_only ?mc"
    by (simp_all add: callback_eval mc_started_def)
  from missing_metric_skips [OF a, of 0 world0 0 world0] show ?thesis by (simp add: world0_def)
qed

text \<open>
  The claim as stated covers every ModelCheckpoint. With \<open>save_best_only\<close> false the
  metric is never read: the model is saved and nothing is logged.
\<close>

theorem checkpoint_every_epoch_ignores_metric:
  "map_of [(''loss'', Fin 1)] (metric_name ''val_acc'') = None \<and>
   latest_record (mc_started ''ckpt'' ''val_acc'' False False NInf) (loss_history [1])
     = Some [(''loss'', Fin 1)] \<and>
   mc_on_epoch_end (mc_started ''ckpt'' ''val_acc'' False False NInf) 0 (loss_history [1]) world0
     = Inr ((mc_started ''ckpt'' ''val_acc'' False False NInf)\<lparr>path_checked := True\<rparr>,
            world0\<lparr>dirs := [''ckpt''],
                   files := [''ckpt/arch.yaml'' \<mapsto> ''arch'', ''ckpt/weights.h5'' \<mapsto> ''w1''],
                   writes := [''ckpt/arch.yaml'', ''ckpt/weights.h5'']\<rparr>)"
  by (simp add: callback_eval mc_started_def)

subsection \<open>Early stopping\<close>

lemma es_epoch_end_score:
  assumes "model_set self" "monitor_op self = Some op" "best self = Some b" "wait self = Some n"
    and "get_monitor_value self h ''Early stopping'' w = Inr (Some s, w)"
  shows "es_on_epoch_end self e h w =
     (let self1 = (if apply_op op s b then self\<lparr>best := Some s, wait := Some 0\<rparr>
                   else self\<lparr>wait := Some (n + 1)\<rparr>)
      in if the (wait self1) \<ge> patience self
         then Inr (self1\<lparr>stopped_epoch := e\<rparr>, w\<lparr>stop_training := True\<rparr>)
         else Inr (self1, w))"
  using assms by (simp add: es_on_epoch_end_def Let_def)

lemma es_on_train_begin_ready:
  "es_on_train_begin self = Inr self1 \<Longrightarrow>
     es_ready self1 \<and> patience self1 = patience self \<and> model_set self1 = model_set self
     \<and> monitor self1 = monitor self"
  by (auto simp: es_on_train_begin_def es_ready_def split: option.splits)

lemma es_on_epoch_end_ready:
  "es_on_epoch_end self e h w = Inr (self1, w1) \<Longrightarrow> es_ready self \<Longrightarrow>
     es_ready self1 \<and> patience self1 = patience self \<and> model_set self1 = model_set self
     \<and> monitor self1 = monitor self"
  by (auto simp: es_on_epoch_end_def es_ready_def Let_def split: option.splits if_splits sum.splits prod.splits)

lemma es_epochs_ready:
  "es_epochs st calls = Inr st1 \<Longrightarrow> es_ready (fst st) \<Longrightarrow>
     es_ready (fst st1) \<and> patience (fst st1) = patience (fst st) \<and> model_set (fst st1) = model_set (fst st)
     \<and> monitor (fst st1) = monitor (fst st)"
proof (induction st calls rule: es_epochs.induct)
  case (1 st)
  then show ?case by simp
next
  case (2 st epoch history rest)
  from "2.prems"(1) obtain st2 where
    step: "es_on_epoch_end (fst st) epoch history (snd st) = Inr st2" and
    rest: "es_epochs st2 rest = Inr st1"
    by (auto split: sum.splits)
  from step have "es_on_epoch_end (fst st) epoch history (snd st) = Inr (fst st2, snd st2)" by simp
  from es_on_epoch_end_ready [OF this "2.prems"(2)]
  have a: "es_ready (fst st2)" "patience (fst st2) = patience (fst st)"
    "model_set (fst st2) = model_set (fst st)" "monitor (fst st2) = monitor (fst st)"
    by simp_all
  from "2.IH" [OF step rest a(1)] a show ?case by simp
qed

text \<open>
  Claim C10. With patience 0, after \<open>on_train_begin\<close> and any number of epochs,
  every \<open>on_epoch_end\<close> call in which the monitored metric is present sets
  \<open>stop_training\<close> and records the epoch in \<open>stopped_epoch\<close>, whether the metric
  improved or not.
\<close>

theorem patience_zero_always_stops:
  assumes "patience cb0 = 0" and "model_set cb0"
    and "es_on_train_begin cb0 = Inr cb1"
    and "es_epochs (cb1, w) calls = Inr (cb, w1)"
    and "get_monitor_value cb history ''Early stopping'' w1 = Inr (Some s, w2)"
  shows "\<exists>cb'. es_on_epoch_end cb epoch history w1 = Inr (cb', w1\<lparr>stop_training := True\<rparr>)
              \<and> stopped_epoch cb' = epoch"
proof -
  from es_on_train_begin_ready [OF assms(3)] assms(1,2)
  have r1: "es_ready cb1" "patience cb1 = 0" "model_set cb1" by simp_all
  from es_epochs_ready [OF assms(4)] r1
  have r: "es_ready cb" "patience cb = 0" "model_set cb" by simp_all
  then obtain op b n where f: "monitor_op cb = Some op" "best cb = Some b" "wait cb = Some n" "0 \<le> n"
    by (auto simp: es_ready_def)
  from get_monitor_value_Some [OF assms(5)]
  have g: "get_monitor_value cb history ''Early stopping'' w1 = Inr (Some s, w1)" by simp
  show ?thesis
    using f r(2) by (simp add: es_epoch_end_score [OF r(3) f(1,2,3) g] Let_def)
qed

theorem patience_zero_always_stops_witness:
  "\<exists>cb'. es_on_epoch_end
           \<lparr>monitor = Some ''val_loss'', monitor_op = Some Less, model_set = True,
            patience = 0, stopped_epoch = 0, wait = Some 0, best = Some (Fin 1)\<rparr>
           1 (loss_history [1, 1 / 2]) (world0\<lparr>stop_training := True\<rparr>)
          = Inr (cb', world0\<lparr>stop_training := True\<rparr>) \<and> stopped_epoch cb' = 1"
proof -
  let ?start = "set_model (EarlyStopping 0 (Some ''val_loss''))"
  let ?cb = "\<lparr>monitor = Some ''val_loss'', monitor_op = Some Less, model_set = True,
            patience = 0, stopped_epoch = 0, wait = Some 0, best = Some (Fin 1)\<rparr>"
  let ?w = "world0\<lparr>stop_training := True\<rparr>"
  have a: "patience ?start = 0" "model_set ?start" by (simp_all add: callback_eval)
  have b: "es_on_train_begin ?start = Inr (es_started 0 ''val_loss'')" by (rule es_started_eq)
  have c: "es_epochs (es_started 0 ''val_loss'', world0) [(0, loss_history [1])] = Inr (?cb, ?w)"
    by (simp add: callback_eval)
  have d: "get_monitor_value ?cb (loss_history [1, 1 / 2]) ''Early stopping'' ?w = Inr (Some (Fin (1 / 2)), ?w)"
    by (simp add: callback_eval)
  from patience_zero_always_stops [OF a b c d, of 1] show ?thesis by simp
qed

lemma es_epochs_append:
  "es_epochs st (xs @ ys) = (case es_epochs st xs of Inl e \<Rightarrow> Inl e | Inr st1 \<Rightarrow> es_epochs st1 ys)"
  by (induction st xs rule: es_epochs.induct) (auto split: sum.splits)

lemma es_waiting:
  fixes p :: nat
  assumes "model_set cb" "monitor_op cb = Some op" "best cb = Some b" "wait cb = Some n0"
    and "patience cb = int p" "0 < p"
    and "\<forall>k\<le>p. get_monitor_value cb (h k) ''Early stopping'' w = Inr (Some (s k), w)"
    and "apply_op op (s 0) b"
    and "\<forall>k. 1 \<le> k \<and> k \<le> p \<longrightarrow> \<not> apply_op op (s k) (s 0)"
  shows "k < p \<Longrightarrow> es_epochs (cb, w) (map (\<lambda>i. (e0 + int i, h i)) [0..<Suc k])
           = Inr (cb\<lparr>best := Some (s 0), wait := Some (int k)\<rparr>, w)"
proof (induction k)
  case 0
  have g: "get_monitor_value cb (h 0) ''Early stopping'' w = Inr (Some (s 0), w)"
    using assms(7) by simp
  show ?case
    using assms(5,6,8) by (simp add: es_epoch_end_score [OF assms(1-4) g] Let_def)
next
  case (Suc k)
  let ?cbk = "cb\<lparr>best := Some (s 0), wait := Some (int k)\<rparr>"
  have prev: "es_epochs (cb, w) (map (\<lambda>i. (e0 + int i, h i)) [0..<Suc k]) = Inr (?cbk, w)"
    using Suc by simp
  have "get_monitor_value cb (h (Suc k)) ''Early stopping'' w = Inr (Some (s (Suc k)), w)"
    using assms(7) Suc.prems by simp
  then have g: "get_monitor_value ?cbk (h (Suc k)) ''Early stopping'' w = Inr (Some (s (Suc k)), w)"
    by (simp add: get_monitor_value_monitor [of ?cbk cb])
  have nimp: "\<not> apply_op op (s (Suc k)) (s 0)" using assms(9) Suc.prems by simp
  have step: "es_on_epoch_end ?cbk (e0 + int (Suc k)) (h (Suc k)) w
                = Inr (cb\<lparr>best := Some (s 0), wait := Some (int (Suc k))\<rparr>, w)"
    using assms(1,2,5) nimp Suc.prems
    by (simp add: es_epoch_end_score [OF _ _ _ _ g, of op "s 0" "int k"] Let_def)
  have "map (\<lambda>i. (e0 + int i, h i)) [0..<Suc (Suc k)]
          = map (\<lambda>i. (e0 + int i, h i)) [0..<Suc k] @ [(e0 + int (Suc k), h (Suc k))]"
    by simp
  then show ?case
    using prev step by (simp only: es_epochs_append) simp
qed

text \<open>
  Claim C1 (as amended). With patience \<open>p \<ge> 1\<close>: if the metric improves at epoch
  \<open>e0\<close> and does not improve on that value at the epochs \<open>e0 + 1, ..., e0 + p\<close>,
  then the calls for the epochs \<open>e0, ..., e0 + p - 1\<close> leave the world (and with it
  \<open>stop_training\<close>) and \<open>stopped_epoch\<close> as they were, and the call for epoch
  \<open>e0 + p\<close> sets \<open>stop_training\<close> and \<open>stopped_epoch = e0 + p\<close>.
\<close>

theorem early_stopping_fires_at_patience:
  fixes p :: nat
  assumes "model_set cb" "monitor_op cb = Some op" "best cb = Some b" "wait cb = Some n0"
    and "patience cb = int p" "0 < p"
    and "\<forall>k\<le>p. get_monitor_value cb (h k) ''Early stopping'' w = Inr (Some (s k), w)"
    and "apply_op op (s 0) b"
    and "\<forall>k. 1 \<le> k \<and> k \<le> p \<longrightarrow> \<not> apply_op op (s k) (s 0)"
  shows "(\<forall>k<p. \<exists>cbk. es_epochs (cb, w) (map (\<lambda>i. (e0 + int i, h i)) [0..<Suc k]) = Inr (cbk, w)
                    \<and> stopped_epoch cbk = stopped_epoch cb) \<and>
         (\<exists>cb'. es_epochs (cb, w) (map (\<lambda>i. (e0 + int i, h i)) [0..<Suc p])
                    = Inr (cb', w\<lparr>stop_training := True\<rparr>)
                 \<and> stopped_epoch cb' = e0 + int p)"
proof
  show "\<forall>k<p. \<exists>cbk. es_epochs (cb, w) (map (\<lambda>i. (e0 + int i, h i)) [0..<Suc k]) = Inr (cbk, w)
                    \<and> stopped_epoch cbk = stopped_epoch cb"
    using es_waiting [OF assms] by simp
next
  obtain q where q: "p = Suc q" using assms(6) by (cases p) auto
  then have pq: "int p = int q + 1" by simp
  let ?cbq = "cb\<lparr>best := Some (s 0), wait := Some (int q)\<rparr>"
  have prev: "es_epochs (cb, w) (map (\<lambda>i. (e0 + int i, h i)) [0..<Suc q]) = Inr (?cbq, w)"
    using es_waiting [OF assms, of q e0] q by simp
  have "get_monitor_value cb (h p) ''Early stopping'' w = Inr (Some (s p), w)"
    using assms(7) by simp
  then have g: "get_monitor_value ?cbq (h p) ''Early stopping'' w = Inr (Some (s p), w)"
    by (simp add: get_monitor_value_monitor [of ?cbq cb])
  have nimp: "\<not> apply_op op (s p) (s 0)" using assms(9,6) by simp
  have step: "es_on_epoch_end ?cbq (e0 + int p) (h p) w
                = Inr (cb\<lparr>best := Some (s 0), wait := Some (int p), stopped_epoch := e0 + int p\<rparr>,
                       w\<lparr>stop_training := True\<rparr>)"
    using assms(1,2,5) nimp pq
    by (simp add: es_epoch_end_score [OF _ _ _ _ g, of op "s 0" "int q"] Let_def)
  have "map (\<lambda>i. (e0 + int i, h i)) [0..<Suc p]
          = map (\<lambda>i. (e0 + int i, h i)) [0..<Suc q] @ [(e0 + int p, h p)]"
    using q by simp
  then have "es_epochs (cb, w) (map (\<lambda>i. (e0 + int i, h i)) [0..<Suc p])
          = Inr (cb\<lparr>best := Some (s 0), wait := Some (int p), stopped_epoch := e0 + int p\<rparr>,
                       w\<lparr>stop_training := True\<rparr>)"
    using prev step by (simp only: es_epochs_append) simp
  then show "\<exists>cb'. es_epochs (cb, w) (map (\<lambda>i. (e0 + int i, h i)) [0..<Suc p])
                    = Inr (cb', w\<lparr>stop_training := True\<rparr>)
                 \<and> stopped_epoch cb' = e0 + int p"
    by simp
qed

theorem early_stopping_fires_at_patience_witness:
  "\<exists>cb'. es_epochs (es_started 1 ''val_loss'', world0)
            [(0, loss_history [1]), (1, loss_history [1, 2])]
          = Inr (cb', world0\<lparr>stop_training := True\<rparr>) \<and> stopped_epoch cb' = 1"
proof -
  let ?cb = "es_started 1 ''val_loss''"
  let ?h = "\<lambda>k::nat. if k = 0 then loss_history [1] else loss_history [1, 2]"
  let ?s = "\<lambda>k::nat. if k = 0 then Fin 1 else Fin 2"
  have a: "model_set ?cb" "monitor_op ?cb = Some Less" "best ?cb = Some PInf"
    "wait ?cb = Some 0" "patience ?cb = int 1" "0 < (1::nat)"
    by (simp_all add: callback_eval)
  have g: "\<forall>k\<le>1. get_monitor_value ?cb (?h k) ''Early stopping'' world0 = Inr (Some (?s k), world0)"
    by (simp add: callback_eval)
  have i: "apply_op Less (?s 0) PInf" by simp
  have n: "\<forall>k. 1 \<le> k \<and> k \<le> (1::nat) \<longrightarrow> \<not> apply_op Less (?s k) (?s 0)" by simp
  from early_stopping_fires_at_patience [OF a g i n, of 0] show ?thesis by simp
qed

text \<open>
  The claim as stated puts the stop at epoch \<open>e0 + p + 1\<close> and at no earlier epoch.
  With patience 1, a loss of 1 at epoch 0 and of 2 at epoch 1, the stop is set at epoch 1.
\<close>

theorem early_stopping_not_patience_plus_one:
  "es_epochs (es_started 1 ''val_loss'', world0)
      [(0, loss_history [1]), (1, loss_history [1, 2])]
   = Inr (\<lparr>monitor = Some ''val_loss'', monitor_op = Some Less, model_set = True,
            patience = 1, stopped_epoch = 1, wait = Some 1, best = Some (Fin 1)\<rparr>,
          world0\<lparr>stop_training := True\<rparr>)"
  by (simp add: callback_eval)

subsection \<open>Checkpointing\<close>

lemma path_join_distinct: "path_join fp ''arch.yaml'' \<noteq> path_join fp ''weights.h5''"
  by (simp add: path_join_def)

lemma save_model_result:
  assumes "model_set self"
  shows "\<exists>self1 w1. save_model self w = Inr (self1, w1)
     \<and> self1 = self\<lparr>path_checked := True\<rparr>
     \<and> writes w1 = writes w @ (if save_weights_only self then [] else [path_join (filepath self) ''arch.yaml''])
                              @ [path_join (filepath self) ''weights.h5'']
     \<and> files w1 (path_join (filepath self) ''weights.h5'') = Some (weights w)
     \<and> files w1 (path_join (filepath self) ''arch.yaml'') =
           (if save_weights_only self then files w (path_join (filepath self) ''arch.yaml'')
            else Some (to_yaml w))"
  using assms path_join_distinct [of "filepath self"]
  by (auto simp: save_model_def mc_ensure_path_exists_def ensure_path_exists_def write_file_def Let_def)

text \<open>
  Claim C4. For a ModelCheckpoint with \<open>save_best_only\<close> set (after
  \<open>on_train_begin\<close>, with a model attached) and a monitored score that is present: if
  the score does not improve on the running best, \<open>on_epoch_end\<close> changes neither the
  callback nor the world (no file is written); if it improves, the new best is recorded
  and a save occurs. A save always writes \<open>weights.h5\<close>, and writes \<open>arch.yaml\<close>
  before it exactly when \<open>save_weights_only\<close> is false.
\<close>

theorem checkpoint_gating:
  assumes "save_best_only cb" "model_set cb" "monitor_op cb = Some op" "ckpt_best cb = Some b"
    and "get_monitor_value cb history ''Model checkpoint'' w = Inr (Some s, w)"
  shows "(\<not> apply_op op s b \<longrightarrow> mc_on_epoch_end cb epoch history w = Inr (cb, w)) \<and>
         (apply_op op s b \<longrightarrow>
            (\<exists>cb' w'. mc_on_epoch_end cb epoch history w = Inr (cb', w')
               \<and> ckpt_best cb' = Some s
               \<and> writes w' = writes w
                     @ (if save_weights_only cb then [] else [path_join (filepath cb) ''arch.yaml''])
                     @ [path_join (filepath cb) ''weights.h5'']
               \<and> files w' (path_join (filepath cb) ''weights.h5'') = Some (weights w)
               \<and> files w' (path_join (filepath cb) ''arch.yaml'') =
                     (if save_weights_only cb then files w (path_join (filepath cb) ''arch.yaml'')
                      else Some (to_yaml w))))"
proof -
  have "model_set (cb\<lparr>ckpt_best := Some s\<rparr>)" using assms(2) by simp
  from save_model_result [OF this, of w]
  show ?thesis using assms by (auto simp: mc_on_epoch_end_def)
qed

theorem checkpoint_gating_witness:
  "mc_on_epoch_end (mc_started ''ckpt'' ''val_loss'' True True (Fin (1 / 2))) 3 (loss_history [1]) world0
     = Inr (mc_started ''ckpt'' ''val_loss'' True True (Fin (1 / 2)), world0) \<and>
   (\<exists>cb' w'. mc_on_epoch_end (mc_started ''ckpt'' ''val_loss'' True True PInf) 0 (loss_history [1]) world0
        = Inr (cb', w') \<and> ckpt_best cb' = Some (Fin 1)
      \<and> writes w' = [''ckpt/weights.h5''] \<and> files w' ''ckpt/weights.h5'' = Some ''w1''
      \<and> files w' ''ckpt/arch.yaml'' = None)"
proof -
  let ?a = "mc_started ''ckpt'' ''val_loss'' True True (Fin (1 / 2))"
  let ?b = "mc_started ''ckpt'' ''val_loss'' True True PInf"
  have a: "save_best_only ?a" "model_set ?a" "monitor_op ?a = Some Less" "ckpt_best ?a = Some (Fin (1 / 2))"
    "get_monitor_value ?a (loss_history [1]) ''Model checkpoint'' world0 = Inr (Some (Fin 1), world0)"
    by (simp_all add: callback_eval mc_started_def)
  have b: "save_best_only ?b" "model_set ?b" "monitor_op ?b = Some Less" "ckpt_best ?b = Some PInf"
    "get_monitor_value ?b (loss_history [1]) ''Model checkpoint'' world0 = Inr (Some (Fin 1), world0)"
    by (simp_all add: callback_eval mc_started_def)
  have p: "path_join ''ckpt'' ''weights.h5'' = ''ckpt/weights.h5''"
     "path_join ''ckpt'' ''arch.yaml'' = ''ckpt/arch.yaml''"
    by (simp_all add: path_join_def)
  from checkpoint_gating [OF a, of 3] checkpoint_gating [OF b, of 0] show ?thesis
    by (simp add: mc_started_def p) (simp add: world0_def)
qed

section \<open>Properties of the tensor operations\<close>

subsection \<open>Indices\<close>

lemma valid_index_Nil [simp]: "valid_index [] ix \<longleftrightarrow> ix = []"
  by (simp add: valid_index_def)

lemma valid_index_Cons [simp]:
  "valid_index (d # ds) (i # ix) \<longleftrightarrow> i < d \<and> valid_index ds ix"
  "valid_index (d # ds) [] \<longleftrightarrow> False"
  by (simp_all add: valid_index_def)

lemma valid_index_Nil2 [simp]: "valid_index shp [] \<longleftrightarrow> shp = []"
  by (simp add: valid_index_def)

lemma valid_index_ConsE:
  "valid_index (d # ds) ix \<Longrightarrow> \<exists>i rest. ix = i # rest \<and> i < d \<and> valid_index ds rest"
  by (cases ix) auto

lemma valid_index_length: "valid_index shp ix \<Longrightarrow> length ix = length shp"
  by (simp add: valid_index_def list_all2_lengthD)

lemma ravel_less: "valid_index shp ix \<Longrightarrow> ravel shp ix < prod_list shp"
proof (induction shp ix rule: ravel.induct)
  case (1 d ds i ix)
  then have i: "i < d" and r: "ravel ds ix < prod_list ds" by auto
  have "i * prod_list ds + ravel ds ix < (i + 1) * prod_list ds" using r by simp
  also have "\<dots> \<le> d * prod_list ds" using i by (intro mult_le_mono1) simp
  finally show ?case by simp
qed auto

lemma unravel_ravel: "valid_index shp ix \<Longrightarrow> unravel shp (ravel shp ix) = ix"
proof (induction shp ix rule: ravel.induct)
  case (1 d ds i ix)
  then have v: "valid_index ds ix" by auto
  from ravel_less [OF v] 1 v show ?case by simp
qed auto

lemma ravel_unravel: "n < prod_list shp \<Longrightarrow> ravel shp (unravel shp n) = n"
proof (induction shp arbitrary: n)
  case Nil
  then show ?case by simp
next
  case (Cons d ds)
  then have pos: "0 < prod_list ds" by (cases "prod_list ds = 0") auto
  then have "ravel ds (unravel ds (n mod prod_list ds)) = n mod prod_list ds"
    by (intro Cons.IH) simp
  then show ?case by simp
qed

lemma length_unravel [simp]: "length (unravel shp n) = length shp"
  by (induction shp arbitrary: n) auto

lemma valid_unravel: "n < prod_list shp \<Longrightarrow> valid_index shp (unravel shp n)"
proof (induction shp arbitrary: n)
  case Nil
  then show ?case by simp
next
  case (Cons d ds)
  then have pos: "0 < prod_list ds" by (cases "prod_list ds = 0") auto
  have "n div prod_list ds < d"
    using Cons.prems pos by (simp add: less_mult_imp_div_less mult.commute)
  moreover have "valid_index ds (unravel ds (n mod prod_list ds))"
    using pos by (intro Cons.IH) simp
  ultimately show ?case by simp
qed

lemma neg_mod_props:
  assumes "0 < b"
  shows "b dvd n + neg_mod n b" and "neg_mod n b < b"
    and "b dvd m \<Longrightarrow> n \<le> m \<Longrightarrow> n + neg_mod n b \<le> m"
proof -
  let ?r = "(- int n) mod int b"
  have r0: "0 \<le> ?r" and rb: "?r < int b" using assms by simp_all
  have eq: "int (neg_mod n b) = ?r" using r0 by (simp add: neg_mod_def)
  have "(int n + ?r) mod int b = (int n + - int n) mod int b"
    by (rule mod_add_right_eq)
  then have "int b dvd int n + ?r"
    by (simp add: dvd_eq_mod_eq_0)
  then have "int b dvd int (n + neg_mod n b)" using eq by simp
  then show d: "b dvd n + neg_mod n b" by (simp only: int_dvd_int_iff)
  show l: "neg_mod n b < b" using rb eq by linarith
  assume m: "b dvd m" "n \<le> m"
  show "n + neg_mod n b \<le> m"
  proof (rule ccontr)
    assume "\<not> n + neg_mod n b \<le> m"
    then have lt: "m < n + neg_mod n b" by simp
    from d m(1) have "b dvd (n + neg_mod n b) - m" by (rule dvd_diff_nat)
    moreover have "0 < (n + neg_mod n b) - m" using lt by simp
    ultimately have "b \<le> (n + neg_mod n b) - m" by (rule dvd_imp_le)
    with l m(2) show False by linarith
  qed
qed

subsection \<open>Padding\<close>

lemma length4E: "length xs = 4 \<Longrightarrow> \<exists>a b c d. xs = [a, b, c, d]"
  by (auto simp: numeral_eq_Suc length_Suc_conv)

lemma length5E: "length xs = 5 \<Longrightarrow> \<exists>a b c d e. xs = [a, b, c, d, e]"
  by (auto simp: numeral_eq_Suc length_Suc_conv)

lemma pad_to_multiple_2d_rank5:
  assumes "shape x = [a, b, h, w, c]" "0 < bh" "0 < bw"
  shows "\<exists>y. pad_to_multiple_2d x (bh, bw) = Inr y
           \<and> shape y = [a, b, h + neg_mod h bh, w + neg_mod w bw, c]
           \<and> (\<forall>ix. valid_index (shape y) ix \<longrightarrow>
                 elem y ix = (if valid_index (shape x) ix then elem x ix else 0))"
proof -
  let ?y = "\<lparr>shape = [a, b, h + neg_mod h bh, w + neg_mod w bw, c],
             elem = (\<lambda>ix. if list_all2 (\<lambda>i (b, a). b \<le> i) ix
                                 [(0, 0), (0, 0), (0, neg_mod h bh), (0, neg_mod w bw), (0::nat, 0::nat)]
                               \<and> valid_index (shape x)
                                   (map2 (\<lambda>i (b, a). i - b) ix
                                      [(0, 0), (0, 0), (0, neg_mod h bh), (0, neg_mod w bw), (0, 0)])
                            then elem x (map2 (\<lambda>i (b, a). i - b) ix
                                      [(0, 0), (0, 0), (0, neg_mod h bh), (0, neg_mod w bw), (0, 0)])
                            else 0)\<rparr>"
  have r: "pad_to_multiple_2d x (bh, bw) = Inr ?y"
    using assms by (simp add: pad_to_multiple_2d_def tf_pad_def shape_list_def)
  have "elem ?y ix = (if valid_index (shape x) ix then elem x ix else 0)"
    if "valid_index (shape ?y) ix" for ix
  proof -
    from valid_index_length [OF that] have "length ix = 5" by simp
    then obtain i0 i1 i2 i3 i4 where ix: "ix = [i0, i1, i2, i3, i4]"
      using length5E by blast
    show ?thesis using assms(1) by (simp add: ix)
  qed
  with r show ?thesis by (intro exI [of _ ?y]) simp
qed

lemma pad_to_multiple_2d_rank4:
  assumes "shape x = [a, h, w, c]" "0 < bh" "0 < bw"
  shows "\<exists>y. pad_to_multiple_2d x (bh, bw) = Inr y
           \<and> shape y = [a, h + neg_mod h bh, w + neg_mod w bw, c]
           \<and> (\<forall>ix. valid_index (shape y) ix \<longrightarrow>
                 elem y ix = (if valid_index (shape x) ix then elem x ix else 0))"
proof -
  let ?y = "\<lparr>shape = [a, h + neg_mod h bh, w + neg_mod w bw, c],
             elem = (\<lambda>ix. if list_all2 (\<lambda>i (b, a). b \<le> i) ix
                                 [(0, 0), (0, neg_mod h bh), (0, neg_mod w bw), (0::nat, 0::nat)]
                               \<and> valid_index (shape x)
                                   (map2 (\<lambda>i (b, a). i - b) ix
                                      [(0, 0), (0, neg_mod h bh), (0, neg_mod w bw), (0, 0)])
                            then elem x (map2 (\<lambda>i (b, a). i - b) ix
                                      [(0, 0), (0, neg_mod h bh), (0, neg_mod w bw), (0, 0)])
                            else 0)\<rparr>"
  have r: "pad_to_multiple_2d x (bh, bw) = Inr ?y"
    using assms by (simp add: pad_to_multiple_2d_def tf_pad_def shape_list_def)
  have "elem ?y ix = (if valid_index (shape x) ix then elem x ix else 0)"
    if "valid_index (shape ?y) ix" for ix
  proof -
    from valid_index_length [OF that] have "length ix = 4" by simp
    then obtain i0 i1 i2 i3 where ix: "ix = [i0, i1, i2, i3]"
      using length4E by blast
    show ?thesis using assms(1) by (simp add: ix)
  qed
  with r show ?thesis by (intro exI [of _ ?y]) simp
qed


text \<open>
  Claim C8. For a tensor of rank 4 or 5 and a block shape with positive components,
  \<open>pad_to_multiple_2d\<close> returns a tensor whose height is the smallest multiple of the
  block height that is at least the height of the input, whose width is the smallest
  multiple of the block width that is at least the width of the input, and whose other
  dimensions are those of the input; inside the shape of the input the elements are
  those of the input, and everywhere else (the end of the height and width axes) they
  are zero.
\<close>

theorem pad_to_multiple_2d_least_multiple:
  assumes "length (shape x) = 4 \<or> length (shape x) = 5" and "0 < bh" and "0 < bw"
  shows "\<exists>y. pad_to_multiple_2d x (bh, bw) = Inr y
           \<and> shape y = (shape x)
                [length (shape x) - 3 := shape y ! (length (shape x) - 3),
                 length (shape x) - 2 := shape y ! (length (shape x) - 2)]
           \<and> bh dvd shape y ! (length (shape x) - 3)
           \<and> shape x ! (length (shape x) - 3) \<le> shape y ! (length (shape x) - 3)
           \<and> (\<forall>m. bh dvd m \<and> shape x ! (length (shape x) - 3) \<le> m
                  \<longrightarrow> shape y ! (length (shape x) - 3) \<le> m)
           \<and> bw dvd shape y ! (length (shape x) - 2)
           \<and> shape x ! (length (shape x) - 2) \<le> shape y ! (length (shape x) - 2)
           \<and> (\<forall>m. bw dvd m \<and> shape x ! (length (shape x) - 2) \<le> m
                  \<longrightarrow> shape y ! (length (shape x) - 2) \<le> m)
           \<and> (\<forall>ix. valid_index (shape y) ix \<longrightarrow>
                 elem y ix = (if valid_index (shape x) ix then elem x ix else 0))"
  using assms(1)
proof
  assume "length (shape x) = 4"
  then obtain a h w c where s: "shape x = [a, h, w, c]" using length4E by blast
  from pad_to_multiple_2d_rank4 [OF s assms(2,3)] obtain y where
    y: "pad_to_multiple_2d x (bh, bw) = Inr y"
       "shape y = [a, h + neg_mod h bh, w + neg_mod w bw, c]"
       "\<forall>ix. valid_index (shape y) ix \<longrightarrow>
                 elem y ix = (if valid_index (shape x) ix then elem x ix else 0)"
    by blast
  have lh: "\<forall>m. bh dvd m \<and> h \<le> m \<longrightarrow> h + neg_mod h bh \<le> m"
    using neg_mod_props(3) [OF assms(2)] by blast
  have lw: "\<forall>m. bw dvd m \<and> w \<le> m \<longrightarrow> w + neg_mod w bw \<le> m"
    using neg_mod_props(3) [OF assms(3)] by blast
  show ?thesis
    using y(1,3) neg_mod_props(1) [OF assms(2), of h] neg_mod_props(1) [OF assms(3), of w] lh lw
    by (intro exI [of _ y]) (simp add: s y(2))
next
  assume "length (shape x) = 5"
  then obtain a b h w c where s: "shape x = [a, b, h, w, c]" using length5E by blast
  from pad_to_multiple_2d_rank5 [OF s assms(2,3)] obtain y where
    y: "pad_to_multiple_2d x (bh, bw) = Inr y"
       "shape y = [a, b, h + neg_mod h bh, w + neg_mod w bw, c]"
       "\<forall>ix. valid_index (shape y) ix \<longrightarrow>
                 elem y ix = (if valid_index (shape x) ix then elem x ix else 0)"
    by blast
  have lh: "\<forall>m. bh dvd m \<and> h \<le> m \<longrightarrow> h + neg_mod h bh \<le> m"
    using neg_mod_props(3) [OF assms(2)] by blast
  have lw: "\<forall>m. bw dvd m \<and> w \<le> m \<longrightarrow> w + neg_mod w bw \<le> m"
    using neg_mod_props(3) [OF assms(3)] by blast
  show ?thesis
    using y(1,3) neg_mod_props(1) [OF assms(2), of h] neg_mod_props(1) [OF assms(3), of w] lh lw
    by (intro exI [of _ y]) (simp add: s y(2))
qed

theorem pad_to_multiple_2d_least_multiple_witness:
  "\<exists>y. pad_to_multiple_2d (ramp [1, 1, 3, 5, 1]) (2, 4) = Inr y \<and> shape y = [1, 1, 4, 8, 1]
      \<and> elem y [0, 0, 2, 4, 0] = 15 \<and> elem y [0, 0, 3, 0, 0] = 0 \<and> elem y [0, 0, 0, 5, 0] = 0"
proof -
  let ?x = "ramp [1, 1, 3, 5, 1]"
  have a: "length (shape ?x) = 4 \<or> length (shape ?x) = 5" "(0::nat) < 2" "(0::nat) < 4"
    by (simp_all add: ramp_def)
  from pad_to_multiple_2d_least_multiple [OF a] obtain y where y: "pad_to_multiple_2d ?x (2, 4) = Inr y"
    "shape y = (shape ?x) [length (shape ?x) - 3 := shape y ! (length (shape ?x) - 3),
                           length (shape ?x) - 2 := shape y ! (length (shape ?x) - 2)]"
    "2 dvd shape y ! (length (shape ?x) - 3)"
    "shape ?x ! (length (shape ?x) - 3) \<le> shape y ! (length (shape ?x) - 3)"
    "\<forall>m. 2 dvd m \<and> shape ?x ! (length (shape ?x) - 3) \<le> m \<longrightarrow> shape y ! (length (shape ?x) - 3) \<le> m"
    "4 dvd shape y ! (length (shape ?x) - 2)"
    "shape ?x ! (length (shape ?x) - 2) \<le> shape y ! (length (shape ?x) - 2)"
    "\<forall>m. 4 dvd m \<and> shape ?x ! (length (shape ?x) - 2) \<le> m \<longrightarrow> shape y ! (length (shape ?x) - 2) \<le> m"
    "\<forall>ix. valid_index (shape y) ix \<longrightarrow> elem y ix = (if valid_index (shape ?x) ix then elem ?x ix else 0)"
    by blast
  have l: "length (shape ?x) - 3 = 2" "length (shape ?x) - 2 = 3" by (simp_all add: ramp_def)
  note z = y(2-8) [unfolded l]
  define h where "h = shape y ! 2"
  define w where "w = shape y ! 3"
  have s: "shape y = [1, 1, h, w, 1]"
    using z(1) by (simp add: ramp_def h_def w_def numeral_2_eq_2 numeral_3_eq_3)
  have "2 dvd h" "3 \<le> h" using z(2,3) by (simp_all add: ramp_def h_def)
  moreover have "h \<le> 4" using z(4) by (simp add: ramp_def h_def)
  ultimately have h: "h = 4" by presburger
  have "4 dvd w" "5 \<le> w" using z(5,6) by (simp_all add: ramp_def w_def)
  moreover have "w \<le> 8" using z(7) by (simp add: ramp_def w_def)
  ultimately have w: "w = 8" by presburger
  have e: "valid_index [1, 1, 4, 8, 1] ix \<Longrightarrow>
             elem y ix = (if valid_index [1, 1, 3, 5, 1] ix then elem ?x ix else 0)" for ix
    using y(9) by (simp add: s h w ramp_def)
  have "elem y [0, 0, 2, 4, 0] = 15" "elem y [0, 0, 3, 0, 0] = 0" "elem y [0, 0, 0, 5, 0] = 0"
    by (simp_all add: e) (simp add: ramp_def)
  with y(1) s h w show ?thesis by simp
qed

subsection \<open>Gather indices\<close>

lemma and_then_Inr [simp]: "and_then (Inr a) f = f a"
  by (simp add: and_then_def)

lemma and_then_Inl [simp]: "and_then (Inl e) f = Inl e"
  by (simp add: and_then_def)

lemma infer_shape_nat:
  "prod_list shp = n \<Longrightarrow> infer_shape n (map int shp) = Some shp"
  by (simp add: infer_shape_def list_all_iff comp_def)

lemma tf_reshape_nat:
  "prod_list shp = prod_list (shape t) \<Longrightarrow>
     tf_reshape t (map int shp)
       = Inr \<lparr>shape = shp, elem = (\<lambda>ix. elem t (unravel (shape t) (ravel shp ix)))\<rparr>"
  by (simp add: tf_reshape_def infer_shape_nat)

lemma reshape_elem:
  "valid_index shp jx \<Longrightarrow> m = ravel shp jx \<Longrightarrow> elem t (unravel shp m) = elem t jx"
  by (simp add: unravel_ravel)

lemma sum_list_delta:
  fixes f :: "nat \<Rightarrow> 'a::comm_monoid_add"
  shows "(\<Sum>i\<leftarrow>[0..<n]. if i = k then f i else 0) = (if k < n then f k else 0)"
  by (induction n) auto

lemma sum_list_cong:
  "(\<And>x. x \<in> set xs \<Longrightarrow> f x = g x) \<Longrightarrow> sum_list (map f xs) = sum_list (map g xs)"
  by (induction xs) auto

lemma block_offset_unique:
  fixes u v bw a :: nat
  assumes "v < bw"
  shows "u * bw + v = a \<longleftrightarrow> u = a div bw \<and> v = a mod bw"
proof
  assume "u * bw + v = a"
  then have a: "a = u * bw + v" by (rule sym)
  have "0 < bw" using assms by simp
  then have "(u * bw + v) div bw = u" "(u * bw + v) mod bw = v" using assms by simp_all
  then show "u = a div bw \<and> v = a mod bw" by (simp only: a)
next
  assume "u = a div bw \<and> v = a mod bw"
  then show "u * bw + v = a" by simp
qed

lemma sum_list_block:
  fixes g :: "nat \<Rightarrow> nat \<Rightarrow> real"
  assumes "a < bh * bw"
  shows "(\<Sum>u\<leftarrow>[0..<bh]. \<Sum>v\<leftarrow>[0..<bw]. g u v * (if u * bw + v = a then 1 else 0))
           = g (a div bw) (a mod bw)"
proof -
  have bw: "0 < bw" using assms by (cases bw) auto
  have inner: "(\<Sum>v\<leftarrow>[0..<bw]. g u v * (if u * bw + v = a then 1 else 0))
                 = (if u = a div bw then g u (a mod bw) else 0)" for u
  proof -
    have "(\<Sum>v\<leftarrow>[0..<bw]. g u v * (if u * bw + v = a then 1 else 0))
            = (\<Sum>v\<leftarrow>[0..<bw]. if v = a mod bw then (if u = a div bw then g u v else 0) else 0)"
      by (rule sum_list_cong) (auto simp: block_offset_unique)
    also have "\<dots> = (if a mod bw < bw then (if u = a div bw then g u (a mod bw) else 0) else 0)"
      by (rule sum_list_delta)
    finally show ?thesis using bw by simp
  qed
  have "a div bw < bh" using assms by (simp add: less_mult_imp_div_less)
  then show ?thesis by (simp add: inner sum_list_delta)
qed

lemma int32_of_float32 [simp]: "int32_of_float (float32_of_int (int m)) = int (float32_of_nat m)"
  by (simp add: int32_of_float_def float32_of_int_def)

lemma conv_output_size_valid:
  "0 < s \<Longrightarrow> k \<le> n \<Longrightarrow> conv_output_size n k s = Some ((n - k) div s + 1)"
proof -
  assume s: "0 < s" and k: "k \<le> n"
  have e: "n + s - k = (n - k) + s" using k by simp
  have "((n - k) + s) div s = (n - k) div s + 1" using s by simp
  then have "(n + s - k) div s = (n - k) div s + 1" by (simp only: e)
  moreover have "k \<le> n + s" using k by simp
  ultimately show ?thesis using s by (simp add: conv_output_size_def)
qed

lemma infer_shape_rows:
  assumes "0 < n"
  shows "infer_shape (n * c) [int n, - 1] = Some [n, c]"
proof -
  have a: "\<not> list_all (\<lambda>d. 0 \<le> d) [int n, - 1]" by simp
  have "int n \<noteq> - 1" by linarith
  then have b: "count_list [int n, - 1] (- 1) = 1" by simp
  have c: "list_all (\<lambda>d. - 1 \<le> d) [int n, - 1]" by simp
  have "int n \<noteq> - 1" by linarith
  then have d: "prod_list (map nat (filter (\<lambda>d. d \<noteq> - 1) [int n, - 1])) = n" by simp
  have e: "map (\<lambda>d. if d = - 1 then n * c div n else nat d) [int n, - 1] = [n, c]"
    using assms \<open>int n \<noteq> - 1\<close> by simp
  show ?thesis
    unfolding infer_shape_def using assms by (simp only: a b c d e Let_def) simp
qed

lemma tf_reshape_rows:
  assumes "0 < n" "prod_list (shape t) = n * c"
  shows "tf_reshape t [int n, - 1]
           = Inr \<lparr>shape = [n, c], elem = (\<lambda>ix. elem t (unravel (shape t) (ravel [n, c] ix)))\<rparr>"
  by (simp add: tf_reshape_def assms(2) infer_shape_rows [OF assms(1)])

lemma block_offset_less:
  fixes u v bh bw :: nat
  assumes "u < bh" "v < bw"
  shows "u * bw + v < bh * bw"
proof -
  have "u * bw + v < (u + 1) * bw" using assms(2) by simp
  also have "\<dots> \<le> bh * bw" using assms(1) by (intro mult_le_mono1) simp
  finally show ?thesis .
qed

lemma eye_kernel_elem:
  assumes "u < bh" "v < bw" "a < bh * bw"
  shows "elem (tf_eye (bh * bw)) (unravel [bh * bw, bh * bw] (ravel [bh, bw, 1, bh * bw] [u, v, 0, a]))
           = (if u * bw + v = a then 1 else 0)"
proof -
  have v: "valid_index [bh * bw, bh * bw] [u * bw + v, a]"
    using block_offset_less [OF assms(1,2)] assms(3) by simp
  have e: "ravel [bh, bw, 1, bh * bw] [u, v, 0, a] = ravel [bh * bw, bh * bw] [u * bw + v, a]"
    by (simp add: algebra_simps)
  show ?thesis
    by (simp only: reshape_elem [OF v e]) (simp add: tf_eye_def)
qed

lemma gather_indices_2d_spec:
  assumes rank: "4 \<le> length (shape x)" and H: "shape x ! 2 = H" and W: "shape x ! 3 = W"
    and pos: "0 < bh" "0 < bw" "0 < sh" "0 < sw" and fit: "bh \<le> H" "bw \<le> W"
  defines "oh \<equiv> (H - bh) div sh + 1" and "ow \<equiv> (W - bw) div sw + 1"
  shows "\<exists>r. gather_indices_2d x (bh, bw) (sh, sw) = Inr r \<and> shape r = [oh * ow, bh * bw]
          \<and> (\<forall>n a. n < oh * ow \<longrightarrow> a < bh * bw \<longrightarrow>
                elem r [n, a] = int (float32_of_nat
                   ((n div ow * sh + a div bw) * W + (n mod ow * sw + a mod bw))))"
proof -
  define C where "C = bh * bw"
  define kernel where
    "kernel = \<lparr>shape = [bh, bw, 1, C],
               elem = (\<lambda>ix. elem (tf_eye C) (unravel [C, C] (ravel [bh, bw, 1, C] ix)))\<rparr>"
  define idx where
    "idx = \<lparr>shape = [1, H, W, 1],
            elem = (\<lambda>ix. elem (tf_range (H * W)) (unravel [H * W] (ravel [1, H, W, 1] ix)))\<rparr>"
  define conv where
    "conv = \<lparr>shape = [1, oh, ow, C],
             elem = (\<lambda>ix. \<Sum>u\<leftarrow>[0..<bh]. \<Sum>v\<leftarrow>[0..<bw]. \<Sum>ci\<leftarrow>[0..<1].
                       elem (map_tensor float32_of_int idx) [ix ! 0, ix ! 1 * sh + u, ix ! 2 * sw + v, ci]
                         * elem kernel [u, v, ci, ix ! 3])\<rparr>"
  define flat where
    "flat = \<lparr>shape = [oh * ow, C],
             elem = (\<lambda>ix. elem conv (unravel [1, oh, ow, C] (ravel [oh * ow, C] ix)))\<rparr>"
  have Cpos: "0 < C" using pos by (simp add: C_def)
  have nbpos: "0 < oh * ow" by (simp add: oh_def ow_def)
  have k: "reshape_range (tf_eye (bh * bw)) 0 1 [bh, bw, 1] = Inr kernel"
    by (simp add: reshape_range_def shape_list_def tf_eye_def tf_reshape_def infer_shape_def
        kernel_def C_def nat_mult_distrib Let_def)
  have i: "tf_reshape (tf_range (shape x ! 2 * shape x ! 3)) [1, int (shape x ! 2), int (shape x ! 3), 1]
             = Inr idx"
    by (simp add: H W tf_range_def tf_reshape_def infer_shape_def idx_def)
  have c: "tf_conv2d_valid (map_tensor float32_of_int idx) kernel [1, sh, sw, 1] = Inr conv"
    using conv_output_size_valid [OF pos(3) fit(1)] conv_output_size_valid [OF pos(4) fit(2)]
    by (simp add: tf_conv2d_valid_def map_tensor_def idx_def kernel_def conv_def oh_def ow_def)
  have p3: "prod_list (take 3 (shape conv)) = oh * ow"
    by (simp add: conv_def)
  have "prod_list (shape conv) = (oh * ow) * C" by (simp add: conv_def)
  from tf_reshape_rows [OF nbpos this]
  have f: "tf_reshape conv [int (prod_list (take 3 (shape conv))), - 1] = Inr flat"
    by (simp only: p3) (simp add: flat_def conv_def)
  have res: "gather_indices_2d x (bh, bw) (sh, sw) = Inr (map_tensor int32_of_float flat)"
    unfolding gather_indices_2d_def using rank
    by (simp only: fst_conv snd_conv k and_then_Inr Let_def shape_list_def i c f
        linorder_not_less [symmetric] if_False)
  have el: "elem (map_tensor int32_of_float flat) [n, a]
              = int (float32_of_nat ((n div ow * sh + a div bw) * W + (n mod ow * sw + a mod bw)))"
    if n: "n < oh * ow" and a: "a < bh * bw" for n a
  proof -
    have ow: "0 < ow" by (simp add: ow_def)
    have v: "valid_index [1, oh, ow, C] [0, n div ow, n mod ow, a]"
      using n a ow by (simp add: C_def less_mult_imp_div_less)
    have "(n div ow * ow + n mod ow) * C = n * C" by simp
    then have "n div ow * (ow * C) + n mod ow * C = n * C"
      by (simp only: distrib_right mult.assoc)
    then have e: "ravel [oh * ow, C] [n, a] = ravel [1, oh, ow, C] [0, n div ow, n mod ow, a]"
      by simp
    have "elem flat [n, a] = elem conv [0, n div ow, n mod ow, a]"
      by (simp only: flat_def tensor.simps reshape_elem [OF v e])
    also have "\<dots> = (\<Sum>u\<leftarrow>[0..<bh]. \<Sum>v\<leftarrow>[0..<bw].
                 float32_of_int (int ((n div ow * sh + u) * W + (n mod ow * sw + v)))
                   * (if u * bw + v = a then 1 else 0))"
      unfolding conv_def tensor.simps
    proof (rule sum_list_cong, rule sum_list_cong)
      fix u v assume "u \<in> set [0..<bh]" "v \<in> set [0..<bw]"
      then have uv: "u < bh" "v < bw" by simp_all
      have "elem kernel [u, v, 0, a] = (if u * bw + v = a then 1 else 0)"
        using eye_kernel_elem [OF uv a] by (simp add: kernel_def C_def)
      then show "(\<Sum>ci\<leftarrow>[0..<1]. elem (map_tensor float32_of_int idx)
                     [[0, n div ow, n mod ow, a] ! 0, [0, n div ow, n mod ow, a] ! 1 * sh + u,
                      [0, n div ow, n mod ow, a] ! 2 * sw + v, ci]
                    * elem kernel [u, v, ci, [0, n div ow, n mod ow, a] ! 3])
                 = float32_of_int (int ((n div ow * sh + u) * W + (n mod ow * sw + v)))
                     * (if u * bw + v = a then 1 else 0)"
        by (simp add: map_tensor_def idx_def tf_range_def)
    qed
    also have "\<dots> = float32_of_int (int ((n div ow * sh + a div bw) * W + (n mod ow * sw + a mod bw)))"
      by (rule sum_list_block [OF a])
    finally show ?thesis by (simp only: map_tensor_def tensor.simps int32_of_float32)
  qed
  show ?thesis
    using res el by (intro exI [of _ "map_tensor int32_of_float flat"])
      (simp add: map_tensor_def flat_def C_def)
qed


lemma valid_blocks_eq_ceil:
  assumes "0 < b" "b \<le> s" "s dvd n" "b \<le> n"
  shows "(n - b) div s + 1 = ceil_div n s"
proof -
  from assms(3) obtain k where k: "n = s * k" by (auto simp: dvd_def)
  have s: "0 < s" using assms(1,2) by simp
  have kpos: "0 < k" using assms(1,4) k by (cases k) auto
  then obtain j where j: "k = Suc j" by (cases k) auto
  have "n - b = s * j + (s - b)" using assms(2) by (simp add: k j)
  moreover have "s - b < s" using assms(1) s by simp
  ultimately have "(n - b) div s = j" using s by simp
  moreover have "ceil_div n s = k"
  proof -
    obtain t where t: "s = Suc t" using s by (cases s) auto
    have "t < s" using t by simp
    then have "(s * k + t) div s = k" by simp
    moreover have "n + s - 1 = s * k + t" by (simp add: k t)
    ultimately show ?thesis by (simp only: ceil_div_def)
  qed
  ultimately show ?thesis by (simp add: j)
qed


text \<open>
  Claim C7 (as amended). For positive block shape and stride and a grid at least as
  large as one block, \<open>gather_indices_2d\<close> returns
  \<open>((H - bh) div sh + 1) * ((W - bw) div sw + 1)\<close> rows of \<open>bh * bw\<close> indices (the
  number of positions of a window that lies inside the grid). When the block is not
  larger than the stride and the stride divides the grid, this is
  \<open>ceil (H / sh) * ceil (W / sw)\<close>.
\<close>

theorem gather_indices_2d_num_blocks:
  assumes "4 \<le> length (shape x)"
    and "0 < bh" "0 < bw" "0 < sh" "0 < sw"
    and "bh \<le> shape x ! 2" "bw \<le> shape x ! 3"
  shows "\<exists>r. gather_indices_2d x (bh, bw) (sh, sw) = Inr r
           \<and> shape r = [((shape x ! 2 - bh) div sh + 1) * ((shape x ! 3 - bw) div sw + 1), bh * bw]
           \<and> (bh \<le> sh \<and> bw \<le> sw \<and> sh dvd shape x ! 2 \<and> sw dvd shape x ! 3
                \<longrightarrow> hd (shape r) = ceil_div (shape x ! 2) sh * ceil_div (shape x ! 3) sw)"
proof -
  from gather_indices_2d_spec [OF assms(1) refl refl assms(2-7)]
  obtain r where r: "gather_indices_2d x (bh, bw) (sh, sw) = Inr r"
    "shape r = [((shape x ! 2 - bh) div sh + 1) * ((shape x ! 3 - bw) div sw + 1), bh * bw]"
    by blast
  have "hd (shape r) = ceil_div (shape x ! 2) sh * ceil_div (shape x ! 3) sw"
    if "bh \<le> sh" "bw \<le> sw" "sh dvd shape x ! 2" "sw dvd shape x ! 3"
    using valid_blocks_eq_ceil [OF assms(2) that(1,3) assms(6)]
      valid_blocks_eq_ceil [OF assms(3) that(2,4) assms(7)]
    by (simp add: r(2))
  with r show ?thesis by blast
qed


theorem gather_indices_2d_num_blocks_witness:
  "\<exists>r. gather_indices_2d (zeros [1, 1, 6, 6, 1]) (2, 2) (2, 2) = Inr r \<and> shape r = [9, 4]
      \<and> hd (shape r) = ceil_div 6 2 * ceil_div 6 2"
proof -
  have a: "4 \<le> length (shape (zeros [1, 1, 6, 6, 1]))" "(0::nat) < 2" "(0::nat) < 2" "(0::nat) < 2" "(0::nat) < 2"
    "(2::nat) \<le> shape (zeros [1, 1, 6, 6, 1]) ! 2" "(2::nat) \<le> shape (zeros [1, 1, 6, 6, 1]) ! 3"
    by (simp_all add: zeros_def)
  from gather_indices_2d_num_blocks [OF a] show ?thesis by (simp add: zeros_def ceil_div_def)
qed

text \<open>
  The claim as stated includes blocks larger than the stride. On a 6 x 6 grid, blocks of
  4 x 4 with stride 2 x 2 (a query shape of 2 x 2 with a flange of 1 on a 4 x 4 map)
  give 4 rows, not \<open>ceil (6 / 2) * ceil (6 / 2) = 9\<close>.
\<close>

theorem overlapping_blocks_fewer_than_ceil:
  "map_sum id shape (gather_indices_2d (zeros [1, 1, 6, 6, 1]) (4, 4) (2, 2)) = Inr [4, 16]
     \<and> ceil_div 6 2 * ceil_div 6 2 = 9"
proof -
  have "4 \<le> length (shape (zeros [1, 1, 6, 6, 1]))" "(4::nat) \<le> shape (zeros [1, 1, 6, 6, 1]) ! 2"
    "(4::nat) \<le> shape (zeros [1, 1, 6, 6, 1]) ! 3"
    by (simp_all add: zeros_def)
  from gather_indices_2d_spec [OF this(1) refl refl _ _ _ _ this(2,3), of 2 2]
  obtain r where "gather_indices_2d (zeros [1, 1, 6, 6, 1]) (4, 4) (2, 2) = Inr r"
    "shape r = [((shape (zeros [1, 1, 6, 6, 1]) ! 2 - 4) div 2 + 1)
                 * ((shape (zeros [1, 1, 6, 6, 1]) ! 3 - 4) div 2 + 1), 4 * 4]"
    by auto
  then show ?thesis by (simp add: zeros_def ceil_div_def)
qed


subsection \<open>Coverage of the grid by non-overlapping blocks\<close>

lemma bit_length_le: "n < 2 ^ k \<Longrightarrow> bit_length n \<le> k"
proof (induction k arbitrary: n)
  case 0
  then show ?case by (simp add: bit_length.simps)
next
  case (Suc k)
  show ?case
  proof (cases "n = 0")
    case True
    then show ?thesis by (simp add: bit_length.simps)
  next
    case False
    have "n div 2 < 2 ^ k" using Suc.prems by simp
    from Suc.IH [OF this] False show ?thesis by (subst bit_length.simps) simp
  qed
qed

lemma float32_of_nat_small:
  assumes "n < 2 ^ 24"
  shows "float32_of_nat n = n"
proof -
  have "bit_length n - 24 = 0" using bit_length_le [OF assms] by simp
  then show ?thesis by (simp add: float32_of_nat_def)
qed

lemma bit_length_pow24: "bit_length 16777216 = 25"
  by (simp add: bit_length.simps)

lemma bit_length_pow24_1: "bit_length 16777217 = 25"
  by (simp add: bit_length.simps)

lemma float32_of_nat_pow24: "float32_of_nat 16777216 = 16777216"
  by (simp add: float32_of_nat_def bit_length_pow24)

lemma float32_of_nat_pow24_1: "float32_of_nat 16777217 = 16777216"
  by (simp add: float32_of_nat_def bit_length_pow24_1)

lemma float32_of_nat_exact:
  assumes "n \<le> 2 ^ 24"
  shows "float32_of_nat n = n"
proof (cases "n = 2 ^ 24")
  case True
  then show ?thesis using float32_of_nat_pow24 by simp
next
  case False
  then have "n < 2 ^ 24" using assms by simp
  then show ?thesis by (rule float32_of_nat_small)
qed

lemma concat_rows:
  "concat (map (\<lambda>n. map (f n) [0..<c]) [0..<m]) = map (\<lambda>k. f (k div c) (k mod c)) [0..<m * c]"
proof (induction m)
  case 0
  then show ?case by simp
next
  case (Suc m)
  have "[0..<m * c + c] = [0..<m * c] @ [m * c..<m * c + c]"
    by (rule upt_add_eq_append) simp
  moreover have "[m * c..<m * c + c] = map (\<lambda>a. a + m * c) [0..<c]"
    by (simp only: map_add_upt add.commute)
  ultimately have u: "[0..<Suc m * c] = [0..<m * c] @ map (\<lambda>a. a + m * c) [0..<c]"
    by (simp only: mult_Suc add.commute)
  have "map (\<lambda>k. f (k div c) (k mod c)) (map (\<lambda>a. a + m * c) [0..<c]) = map (f m) [0..<c]"
    by (rule nth_equalityI) simp_all
  then have "map (\<lambda>k. f (k div c) (k mod c)) [0..<Suc m * c]
               = map (\<lambda>k. f (k div c) (k mod c)) [0..<m * c] @ map (f m) [0..<c]"
    by (simp only: u map_append)
  moreover have "concat (map (\<lambda>n. map (f n) [0..<c]) [0..<Suc m])
               = concat (map (\<lambda>n. map (f n) [0..<c]) [0..<m]) @ map (f m) [0..<c]"
    by simp
  ultimately show ?case by (simp only: Suc.IH)
qed

lemma block_offset_inj:
  fixes u v u' v' b :: nat
  assumes "v < b" "v' < b" "u * b + v = u' * b + v'"
  shows "u = u' \<and> v = v'"
proof -
  have "u = (u' * b + v') div b \<and> v = (u' * b + v') mod b"
    using block_offset_unique [OF assms(1)] assms(3) by blast
  moreover have "(u' * b + v') div b = u'" "(u' * b + v') mod b = v'"
    using assms(2) by simp_all
  ultimately show ?thesis by (simp only:)
qed

lemma div_mod_inj:
  fixes n m c :: nat
  assumes "n div c = m div c" "n mod c = m mod c"
  shows "n = m"
proof -
  have "n = n div c * c + n mod c" by simp
  also have "\<dots> = m div c * c + m mod c" by (simp only: assms)
  also have "\<dots> = m" by simp
  finally show ?thesis .
qed

text \<open>Position in the grid of element \<open>a\<close> of block \<open>n\<close>, for blocks of \<open>bh\<close> by \<open>bw\<close>
  laid out \<open>ow\<close> to a row on a grid of width \<open>W\<close> with strides \<open>sh\<close> and \<open>sw\<close>.\<close>

lemma block_position_less:
  assumes "n < oh * ow" "a < bh * bw"
  shows "block_position (ow * bw) bw bh bw ow n a < (oh * bh) * (ow * bw)"
proof -
  have ow: "0 < ow" using assms(1) by (cases ow) auto
  have bw: "0 < bw" using assms(2) by (cases bw) auto
  have "n div ow < oh" using assms(1) by (simp add: less_mult_imp_div_less)
  moreover have "a div bw < bh" using assms(2) by (simp add: less_mult_imp_div_less)
  ultimately have y: "n div ow * bh + a div bw < oh * bh" by (rule block_offset_less)
  have "n mod ow < ow" "a mod bw < bw" using ow bw by simp_all
  then have x: "n mod ow * bw + a mod bw < ow * bw" by (rule block_offset_less)
  show ?thesis unfolding block_position_def using y x by (rule block_offset_less)
qed

lemma block_position_inj:
  assumes "n < oh * ow" "a < bh * bw" "n' < oh * ow" "a' < bh * bw"
    and "block_position (ow * bw) bw bh bw ow n a = block_position (ow * bw) bw bh bw ow n' a'"
  shows "n = n' \<and> a = a'"
proof -
  have ow: "0 < ow" using assms(1) by (cases ow) auto
  have bw: "0 < bw" using assms(2) by (cases bw) auto
  have x: "n mod ow * bw + a mod bw < ow * bw" "n' mod ow * bw + a' mod bw < ow * bw"
    using ow bw by (simp_all add: block_offset_less)
  from block_offset_inj [OF x assms(5) [unfolded block_position_def]]
  have y: "n div ow * bh + a div bw = n' div ow * bh + a' div bw"
    and z: "n mod ow * bw + a mod bw = n' mod ow * bw + a' mod bw" by simp_all
  have "a div bw < bh" "a' div bw < bh" using assms(2,4) by (simp_all add: less_mult_imp_div_less)
  from block_offset_inj [OF this y] have d: "n div ow = n' div ow" "a div bw = a' div bw" by simp_all
  have "a mod bw < bw" "a' mod bw < bw" using bw by simp_all
  from block_offset_inj [OF this z] have m: "n mod ow = n' mod ow" "a mod bw = a' mod bw" by simp_all
  show ?thesis using div_mod_inj [OF d(1) m(1)] div_mod_inj [OF d(2) m(2)] by simp
qed

lemma permutation_of_upt:
  assumes "inj_on f {..<n}" "f ` {..<n} \<subseteq> {..<n}"
  shows "mset (map f [0..<n]) = mset [0..<n]"
proof -
  have d: "distinct (map f [0..<n])"
    using assms(1) by (simp add: distinct_map atLeast0LessThan)
  have "card (f ` {..<n}) = n" using assms(1) by (simp add: card_image)
  then have "f ` {..<n} = {..<n}" using assms(2) by (intro card_subset_eq) simp_all
  then have s: "set (map f [0..<n]) = set [0..<n]" by (simp add: atLeast0LessThan)
  have "distinct [0..<n]" by simp
  from set_eq_iff_mset_eq_distinct [OF d this] s show ?thesis by blast
qed

lemma gather_indices_2d_partition:
  assumes rank: "4 \<le> length (shape x)" and H: "shape x ! 2 = oh * bh" and W: "shape x ! 3 = ow * bw"
    and pos: "0 < bh" "0 < bw" "0 < oh" "0 < ow"
    and small: "(oh * bh) * (ow * bw) \<le> 2 ^ 24 + 1"
  shows "\<exists>r. gather_indices_2d x (bh, bw) (bh, bw) = Inr r
           \<and> length (rows_of r) = oh * ow
           \<and> (\<forall>row \<in> set (rows_of r). length row = bh * bw \<and> distinct row)
           \<and> mset (concat (rows_of r)) = mset (map int [0..<(oh * bh) * (ow * bw)])"
proof -
  define C where "C = bh * bw"
  define N where "N = (oh * ow) * C"
  define \<phi> where "\<phi> k = block_position (ow * bw) bw bh bw ow (k div C) (k mod C)" for k
  have Cpos: "0 < C" using pos by (simp add: C_def)
  have NHW: "N = (oh * bh) * (ow * bw)" by (simp add: N_def C_def)
  have fit: "bh \<le> oh * bh" "bw \<le> ow * bw" using pos by simp_all
  have oh: "(oh * bh - bh) div bh + 1 = oh"
  proof -
    obtain j where j: "oh = Suc j" using pos(3) by (cases oh) auto
    then show ?thesis using pos(1) by simp
  qed
  have ow: "(ow * bw - bw) div bw + 1 = ow"
  proof -
    obtain j where j: "ow = Suc j" using pos(4) by (cases ow) auto
    then show ?thesis using pos(2) by simp
  qed
  from gather_indices_2d_spec [OF rank H W pos(1,2,1,2) fit]
  obtain r where r: "gather_indices_2d x (bh, bw) (bh, bw) = Inr r"
    and shp: "shape r = [oh * ow, C]"
    and el: "\<And>n a. n < oh * ow \<Longrightarrow> a < C \<Longrightarrow>
               elem r [n, a] = int (float32_of_nat (block_position (ow * bw) bw bh bw ow n a))"
    unfolding oh ow C_def block_position_def by blast
  have idx: "k div C < oh * ow" "k mod C < C" if "k < N" for k
    using that Cpos by (simp_all add: N_def less_mult_imp_div_less)
  have less: "\<phi> k < N" if "k < N" for k
    unfolding \<phi>_def NHW using idx [OF that] by (intro block_position_less) (simp_all add: C_def)
  have exact: "elem r [k div C, k mod C] = int (\<phi> k)" if "k < N" for k
  proof -
    have "\<phi> k \<le> 2 ^ 24" using less [OF that] small by (simp add: NHW)
    then have "float32_of_nat (\<phi> k) = \<phi> k" by (rule float32_of_nat_exact)
    then show ?thesis using el [OF idx [OF that]] by (simp add: \<phi>_def)
  qed
  have inj: "inj_on \<phi> {..<N}"
  proof (rule inj_onI)
    fix k k' assume k: "k \<in> {..<N}" "k' \<in> {..<N}" and e: "\<phi> k = \<phi> k'"
    then have kk: "k < N" "k' < N" by simp_all
    from block_position_inj [OF idx(1) [OF kk(1)] _ idx(1) [OF kk(2)] _ e [unfolded \<phi>_def]]
      idx(2) [OF kk(1)] idx(2) [OF kk(2)]
    have "k div C = k' div C \<and> k mod C = k' mod C" by (simp add: C_def)
    then show "k = k'" using div_mod_inj by blast
  qed
  have rows: "rows_of r = map (\<lambda>n. map (\<lambda>a. elem r [n, a]) [0..<C]) [0..<oh * ow]"
    by (simp add: rows_of_def row_of_def shp)
  have "concat (rows_of r) = map (\<lambda>k. elem r [k div C, k mod C]) [0..<N]"
    unfolding rows N_def by (rule concat_rows)
  also have "\<dots> = map (\<lambda>k. int (\<phi> k)) [0..<N]"
    by (rule map_cong) (simp_all add: exact)
  finally have cat: "concat (rows_of r) = map int (map \<phi> [0..<N])" by (simp add: comp_def)
  have "\<phi> ` {..<N} \<subseteq> {..<N}" using less by auto
  from permutation_of_upt [OF inj this]
  have perm: "mset (map \<phi> [0..<N]) = mset [0..<N]" .
  have "mset (map int (map \<phi> [0..<N])) = image_mset int (mset (map \<phi> [0..<N]))"
    by (rule mset_map)
  also have "\<dots> = image_mset int (mset [0..<N])" by (simp only: perm)
  also have "\<dots> = mset (map int [0..<N])" by (rule mset_map [symmetric])
  finally have m: "mset (concat (rows_of r)) = mset (map int [0..<N])"
    by (simp only: cat)
  have "distinct (map \<phi> [0..<N])"
    using inj by (simp add: distinct_map atLeast0LessThan)
  moreover have "inj_on int (set (map \<phi> [0..<N]))" by (rule inj_onI) simp
  ultimately have "distinct (map int (map \<phi> [0..<N]))"
    by (simp only: distinct_map)
  then have "distinct (concat (rows_of r))"
    by (simp only: cat)
  then have d: "\<forall>row \<in> set (rows_of r). distinct row"
    by (simp add: distinct_concat_iff)
  have l: "\<forall>row \<in> set (rows_of r). length row = bh * bw"
    by (auto simp: rows C_def)
  have "length (rows_of r) = oh * ow" by (simp add: rows)
  with r d l m show ?thesis unfolding NHW by blast
qed


text \<open>
  On a non-empty grid of \<open>H\<close> by \<open>W\<close> positions with at most \<open>2 ^ 24 + 1\<close> positions,
  \<open>H\<close> a multiple of \<open>bh\<close> and \<open>W\<close> a multiple of \<open>bw\<close>, every index is exact in
  float32: \<open>gather_indices_2d\<close> with the stride equal to the block shape returns
  \<open>(H div bh) * (W div bw)\<close> rows, each of \<open>bh * bw\<close> pairwise distinct indices, and
  all rows together hold each of \<open>0, ..., H * W - 1\<close> exactly once.
\<close>

lemma gather_indices_2d_partition_small_grid:
  assumes "4 \<le> length (shape x)" and "0 < bh" "0 < bw"
    and "0 < shape x ! 2" "0 < shape x ! 3"
    and "bh dvd shape x ! 2" "bw dvd shape x ! 3"
    and "shape x ! 2 * shape x ! 3 \<le> 2 ^ 24 + 1"
  shows "\<exists>r. gather_indices_2d x (bh, bw) (bh, bw) = Inr r
           \<and> length (rows_of r) = (shape x ! 2 div bh) * (shape x ! 3 div bw)
           \<and> (\<forall>row \<in> set (rows_of r). length row = bh * bw \<and> distinct row)
           \<and> mset (concat (rows_of r)) = mset (map int [0..<shape x ! 2 * shape x ! 3])"
proof -
  define oh where "oh = shape x ! 2 div bh"
  define ow where "ow = shape x ! 3 div bw"
  have H: "shape x ! 2 = oh * bh" using assms(6) by (simp add: oh_def)
  have W: "shape x ! 3 = ow * bw" using assms(7) by (simp add: ow_def)
  have "0 < oh" using assms(4) H by (cases oh) auto
  moreover have "0 < ow" using assms(5) W by (cases ow) auto
  moreover have "(oh * bh) * (ow * bw) \<le> 2 ^ 24 + 1" using assms(8) by (simp only: H W)
  ultimately show ?thesis
    using gather_indices_2d_partition [OF assms(1) H W assms(2,3)]
    by (simp only: H [symmetric] W [symmetric] oh_def [symmetric] ow_def [symmetric])
qed

lemma gather_indices_2d_partition_small_grid_example:
  "\<exists>r. gather_indices_2d (zeros [1, 1, 4, 6, 1]) (2, 3) (2, 3) = Inr r
      \<and> length (rows_of r) = 4
      \<and> mset (concat (rows_of r)) = mset (map int [0..<24])"
proof -
  let ?x = "zeros [1, 1, 4, 6, 1]"
  have a: "4 \<le> length (shape ?x)" "(0::nat) < 2" "(0::nat) < 3"
    "0 < shape ?x ! 2" "0 < shape ?x ! 3" "2 dvd shape ?x ! 2" "3 dvd shape ?x ! 3"
    "shape ?x ! 2 * shape ?x ! 3 \<le> 2 ^ 24 + 1"
    by (simp_all add: zeros_def)
  from gather_indices_2d_partition_small_grid [OF a] obtain r where
    "gather_indices_2d ?x (2, 3) (2, 3) = Inr r"
    "length (rows_of r) = (shape ?x ! 2 div 2) * (shape ?x ! 3 div 3)"
    "mset (concat (rows_of r)) = mset (map int [0..<shape ?x ! 2 * shape ?x ! 3])"
    by blast
  then show ?thesis by (intro exI [of _ r]) (simp add: zeros_def)
qed

text \<open>
  Claim C5. The claim is that on every grid of \<open>H\<close> by \<open>W\<close> positions, \<open>H\<close> a multiple
  of \<open>bh\<close> and \<open>W\<close> a multiple of \<open>bw\<close>, \<open>gather_indices_2d\<close> with the stride equal to
  the block shape returns rows of pairwise distinct indices that together hold each of
  \<open>0, ..., H * W - 1\<close> exactly once. The code does not do this on a large grid. It
  converts the positions to float32 before the convolution and back to int32 after it,
  and float32 holds the integers up to \<open>2 ^ 24\<close> only. On a grid of 4098 by 4098 with
  blocks of 2 by 2, block 4194305 covers the positions 16777216, 16777217, 16781314 and
  16781315; the row returned for it is 16777216, 16777216, 16781314, 16781316. Position
  16777216 is there twice, and the positions 16777217 and 16781315 are in no row.
\<close>

theorem gather_indices_2d_float32_collision:
  "result_row (gather_indices_2d (zeros [1, 1, 4098, 4098, 1]) (2, 2) (2, 2)) 4194305
     = Some [16777216, 16777216, 16781314, 16781316]"
proof -
  let ?x = "zeros [1, 1, 4098, 4098, 1]"
  have a: "4 \<le> length (shape ?x)" "shape ?x ! 2 = 4098" "shape ?x ! 3 = 4098"
    "(2::nat) \<le> 4098"
    by (simp_all add: zeros_def)
  from gather_indices_2d_spec [OF a(1,2,3) _ _ _ _ a(4,4), of 2 2]
  obtain r where r: "gather_indices_2d ?x (2, 2) (2, 2) = Inr r"
    and shp: "shape r = [((4098 - 2) div 2 + 1) * ((4098 - 2) div 2 + 1), 2 * 2]"
    and el: "\<And>n a. n < ((4098 - 2) div 2 + 1) * ((4098 - 2) div 2 + 1) \<Longrightarrow> a < 2 * 2 \<Longrightarrow>
               elem r [n, a] = int (float32_of_nat
                 ((n div ((4098 - 2) div 2 + 1) * 2 + a div 2) * 4098
                    + (n mod ((4098 - 2) div 2 + 1) * 2 + a mod 2)))"
    by auto
  have f: "float32_of_nat 16777216 = 16777216" "float32_of_nat 16777217 = 16777216"
    "float32_of_nat 16781314 = 16781314" "float32_of_nat 16781315 = 16781316"
    by (simp_all add: float32_of_nat_def bit_length.simps)
  have e: "elem r [4194305, 0] = 16777216" "elem r [4194305, 1] = 16777216"
    "elem r [4194305, 2] = 16781314" "elem r [4194305, 3] = 16781316"
    by (simp_all add: el f)
  have e1: "elem r [4194305, Suc 0] = 16777216" using e(2) by simp
  have "[0..<4] = [0, 1, 2, 3]" by (simp add: upt_rec)
  then have "row_of r 4194305 = [16777216, 16777216, 16781314, 16781316]"
    by (simp add: row_of_def shp e e1)
  then show ?thesis by (simp only: result_row_def r sum.case)
qed


subsection \<open>Gather followed by scatter\<close>

lemma upt_4: "[0..<4] = [0, 1, 2, 3]"
  by (simp add: upt_rec)

lemma upt_5: "[0..<5] = [0, 1, 2, 3, 4]"
  by (simp add: upt_rec)

lemma unravel_rows: "unravel [nb, ba] k = [k div ba, k mod ba]"
  by simp

lemma split_position:
  fixes p W C :: nat
  shows "p div W * (W * C) + p mod W * C = p * C"
proof -
  have "(p div W * W + p mod W) * C = p * C" by simp
  then show ?thesis by (simp only: distrib_right mult.assoc)
qed

lemma gather_blocks_2d_spec:
  assumes shp: "shape y = [B, Hd, H, W, C]" and si: "shape idx = [nb, ba]"
    and rng: "\<And>n a. n < nb \<Longrightarrow> a < ba \<Longrightarrow> 0 \<le> elem idx [n, a] \<and> elem idx [n, a] < int (H * W)"
  shows "\<exists>g. gather_blocks_2d y idx = Inr g \<and> shape g = [B, Hd, nb, ba, C]
           \<and> (\<forall>b h n a c. b < B \<longrightarrow> h < Hd \<longrightarrow> n < nb \<longrightarrow> a < ba \<longrightarrow> c < C \<longrightarrow>
                 elem g [b, h, n, a, c]
                   = elem y [b, h, nat (elem idx [n, a]) div W, nat (elem idx [n, a]) mod W, c])"
proof -
  define y1 where
    "y1 = \<lparr>shape = [B, Hd, H * W, C],
           elem = (\<lambda>ix. elem y (unravel (shape y) (ravel [B, Hd, H * W, C] ix)))\<rparr>"
  define y2 where
    "y2 = \<lparr>shape = [H * W, B, Hd, C],
           elem = (\<lambda>ix. elem y1 (map (\<lambda>d. ix ! index_of [2, 0, 1, 3] d) [0..<length [2, 0, 1, 3::nat]]))\<rparr>"
  define y3 where
    "y3 = \<lparr>shape = [nb, ba, B, Hd, C],
           elem = (\<lambda>ix. elem y2 (nat (elem idx (take (length (shape idx)) ix))
                                    # drop (length (shape idx)) ix))\<rparr>"
  define g where
    "g = \<lparr>shape = [B, Hd, nb, ba, C],
          elem = (\<lambda>ix. elem y3 (map (\<lambda>d. ix ! index_of [2, 3, 0, 1, 4] d)
                                   [0..<length [2, 3, 0, 1, 4::nat]]))\<rparr>"
  have t: "take 2 (shape y) @ [prod_list (take 2 (drop 2 (shape y)))] @ drop 4 (shape y)
             = [B, Hd, H * W, C]"
    by (simp add: shp)
  have "prod_list [B, Hd, H * W, C] = prod_list (shape y)" by (simp add: shp)
  from tf_reshape_nat [OF this]
  have r1: "reshape_range y 2 4 [prod_list (take 2 (drop 2 (shape y)))] = Inr y1"
    unfolding reshape_range_def shape_list_def Let_def t y1_def .
  have r2: "tf_transpose y1 [2, 0, 1, 3] = Inr y2"
    by (simp add: tf_transpose_def y1_def y2_def)
  have "list_all (\<lambda>jx. 0 \<le> elem idx jx \<and> elem idx jx < int (H * W)) (all_indices (shape idx))"
    unfolding list_all_iff all_indices_def si
  proof
    fix jx assume "jx \<in> set (map (unravel [nb, ba]) [0..<prod_list [nb, ba]])"
    then obtain k where k: "k < nb * ba" "jx = [k div ba, k mod ba]" by auto
    have "0 < ba" using k(1) by (cases ba) auto
    then have "k div ba < nb" "k mod ba < ba" using k(1) by (simp_all add: less_mult_imp_div_less)
    from rng [OF this] show "0 \<le> elem idx jx \<and> elem idx jx < int (H * W)" by (simp add: k(2))
  qed
  then have r3: "tf_gather y2 idx = Inr y3"
    by (simp add: tf_gather_def y2_def y3_def si)
  have r4: "tf_transpose y3 [2, 3, 0, 1, 4] = Inr g"
    by (simp add: tf_transpose_def y3_def g_def)
  have res: "gather_blocks_2d y idx = Inr g"
    unfolding gather_blocks_2d_def
    by (simp only: Let_def shape_list_def r1 r2 r3 r4 and_then_Inr)
  have el: "elem g [b, h, n, a, c]
              = elem y [b, h, nat (elem idx [n, a]) div W, nat (elem idx [n, a]) mod W, c]"
    if "b < B" "h < Hd" "n < nb" "a < ba" "c < C" for b h n a c
  proof -
    define p where "p = nat (elem idx [n, a])"
    from rng [OF that(3,4)] have "0 \<le> elem idx [n, a]" "elem idx [n, a] < int (H * W)"
      by blast+
    then have p: "p < H * W" unfolding p_def by (simp only: nat_less_iff)
    then have W: "0 < W" by (cases W) auto
    have v: "valid_index (shape y) [b, h, p div W, p mod W, c]"
      using that p W by (simp add: shp less_mult_imp_div_less mult.commute)
    have "p div W * (W * C) + p mod W * C = p * C" by (rule split_position)
    then have e: "ravel [B, Hd, H * W, C] [b, h, p, c] = ravel (shape y) [b, h, p div W, p mod W, c]"
      by (simp add: shp)
    have "elem g [b, h, n, a, c] = elem y1 [b, h, p, c]"
      by (simp add: g_def y3_def y2_def si upt_4 upt_5 p_def)
    also have "\<dots> = elem y [b, h, p div W, p mod W, c]"
      unfolding y1_def tensor.simps by (rule reshape_elem [OF v e])
    finally show ?thesis by (simp only: p_def)
  qed
  from res el show ?thesis by (intro exI [of _ g]) (simp add: g_def)
qed

lemma infer_shape_third:
  assumes "0 < B" "0 < Hd" "0 < C"
  shows "infer_shape (B * (Hd * (m * C))) [int B, int Hd, - 1, int C] = Some [B, Hd, m, C]"
proof -
  have ne: "int B \<noteq> - 1" "int Hd \<noteq> - 1" "int C \<noteq> - 1" by linarith+
  have a: "\<not> list_all (\<lambda>d. 0 \<le> d) [int B, int Hd, - 1, int C]" by simp
  have b: "count_list [int B, int Hd, - 1, int C] (- 1) = 1" using ne by simp
  have c: "list_all (\<lambda>d. - 1 \<le> d) [int B, int Hd, - 1, int C]" by simp
  have d: "prod_list (map nat (filter (\<lambda>d. d \<noteq> - 1) [int B, int Hd, - 1, int C])) = B * (Hd * C)"
    using ne by simp
  have k: "0 < B * (Hd * C)" using assms by simp
  have r: "B * (Hd * (m * C)) = m * (B * (Hd * C))" by (simp add: mult_ac)
  have "m * (B * (Hd * C)) div (B * (Hd * C)) = m"
    by (rule div_mult_self_is_m [OF k])
  moreover have "m * (B * (Hd * C)) mod (B * (Hd * C)) = 0"
    by (rule mod_mult_self2_is_0)
  ultimately have q: "B * (Hd * (m * C)) div (B * (Hd * C)) = m" "B * (Hd * (m * C)) mod (B * (Hd * C)) = 0"
    by (simp_all only: r)
  have e: "map (\<lambda>d. if d = - 1 then B * (Hd * (m * C)) div (B * (Hd * C)) else nat d)
             [int B, int Hd, - 1, int C] = [B, Hd, m, C]"
    by (simp only: list.map ne q if_False if_True nat_int simp_thms)
  show ?thesis
    unfolding infer_shape_def using k by (simp only: a b c d e q Let_def) simp
qed

lemma infer_shape_column: "infer_shape n [- 1, 1] = Some [n, 1]"
  by (simp add: infer_shape_def)

lemma scatter_blocks_2d_spec:
  assumes sg: "shape g = [B, Hd, nb, ba, C]" and pos: "0 < B" "0 < Hd" "0 < C"
    and si: "shape idx = [nb, ba]" and sz: "nb * ba = H * W"
    and rng: "\<And>n a. n < nb \<Longrightarrow> a < ba \<Longrightarrow> 0 \<le> elem idx [n, a] \<and> elem idx [n, a] < int (H * W)"
  shows "\<exists>z. scatter_blocks_2d g idx [B, Hd, H, W, C] = Inr z \<and> shape z = [B, Hd, H, W, C]
           \<and> (\<forall>b h i j c. b < B \<longrightarrow> h < Hd \<longrightarrow> i < H \<longrightarrow> j < W \<longrightarrow> c < C \<longrightarrow>
                 elem z [b, h, i, j, c]
                   = (\<Sum>k\<leftarrow>[0..<nb * ba].
                        if elem idx [k div ba, k mod ba] = int (i * W + j)
                        then elem g [b, h, k div ba, k mod ba, c] else 0))"
proof -
  define N where "N = nb * ba"
  define g1 where
    "g1 = \<lparr>shape = [B, Hd, N, C],
           elem = (\<lambda>ix. elem g (unravel (shape g) (ravel [B, Hd, N, C] ix)))\<rparr>"
  define g2 where
    "g2 = \<lparr>shape = [N, B, Hd, C],
           elem = (\<lambda>ix. elem g1 (map (\<lambda>d. ix ! index_of [2, 0, 1, 3] d) [0..<length [2, 0, 1, 3::nat]]))\<rparr>"
  define idx1 where
    "idx1 = \<lparr>shape = [N, 1],
             elem = (\<lambda>ix. elem idx (unravel (shape idx) (ravel [N, 1] ix)))\<rparr>"
  define s where
    "s = \<lparr>shape = [N, B, Hd, C],
          elem = (\<lambda>ix. \<Sum>i\<leftarrow>[0..<N].
                    if elem idx1 [i, 0] = int (hd ix) then elem g2 (i # tl ix) else 0)\<rparr>"
  define s1 where
    "s1 = \<lparr>shape = [B, Hd, N, C],
           elem = (\<lambda>ix. elem s (map (\<lambda>d. ix ! index_of [1, 2, 0, 3] d) [0..<length [1, 2, 0, 3::nat]]))\<rparr>"
  define z where
    "z = \<lparr>shape = [B, Hd, H, W, C],
          elem = (\<lambda>ix. elem s1 (unravel (shape s1) (ravel [B, Hd, H, W, C] ix)))\<rparr>"
  have pg: "prod_list (shape g) = B * (Hd * (N * C))" by (simp add: sg N_def mult_ac)
  have r1: "tf_reshape g [int (shape g ! 0), int (shape g ! 1), - 1, int (last (shape g))] = Inr g1"
    unfolding tf_reshape_def pg
    by (simp add: sg infer_shape_third [OF pos] g1_def)
  have r2: "tf_transpose g1 [2, 0, 1, 3] = Inr g2"
    by (simp add: tf_transpose_def g1_def g2_def)
  have r3: "tf_reshape idx [- 1, 1] = Inr idx1"
    by (simp add: tf_reshape_def infer_shape_column si idx1_def N_def)
  have pick: "elem idx1 [k, 0] = elem idx [k div ba, k mod ba]" for k
    by (simp add: idx1_def si)
  have "list_all (\<lambda>i. 0 \<le> elem idx1 [i, 0] \<and> elem idx1 [i, 0] < int N) [0..<N]"
    unfolding list_all_iff
  proof
    fix k assume "k \<in> set [0..<N]"
    then have k: "k < nb * ba" by (simp add: N_def)
    have "0 < ba" using k by (cases ba) auto
    then have "k div ba < nb" "k mod ba < ba" using k by (simp_all add: less_mult_imp_div_less)
    from rng [OF this] show "0 \<le> elem idx1 [k, 0] \<and> elem idx1 [k, 0] < int N"
      by (simp only: pick N_def sz)
  qed
  moreover have "shape idx1 = [N, 1]" "shape g2 = [N, B, Hd, C]"
    by (simp_all add: idx1_def g2_def)
  ultimately have r4: "tf_scatter_nd idx1 g2 (shape g2) = Inr s"
    by (simp add: tf_scatter_nd_def s_def)
  have r5: "tf_transpose s [1, 2, 0, 3] = Inr s1"
    by (simp add: tf_transpose_def s_def s1_def)
  have "prod_list [B, Hd, H, W, C] = prod_list (shape s1)"
    using sz by (simp add: s1_def N_def mult_ac)
  from tf_reshape_nat [OF this]
  have r6: "tf_reshape s1 (map int [B, Hd, H, W, C]) = Inr z"
    unfolding z_def .
  have two: "\<not> length (shape g) < 2" by (simp add: sg)
  have res: "scatter_blocks_2d g idx [B, Hd, H, W, C] = Inr z"
    unfolding scatter_blocks_2d_def
    by (simp only: Let_def shape_list_def two if_False r1 r2 r3 r4 r5 r6 and_then_Inr)
  have el: "elem z [b, h, i, j, c]
              = (\<Sum>k\<leftarrow>[0..<nb * ba].
                   if elem idx [k div ba, k mod ba] = int (i * W + j)
                   then elem g [b, h, k div ba, k mod ba, c] else 0)"
    if "b < B" "h < Hd" "i < H" "j < W" "c < C" for b h i j c
  proof -
    have p: "i * W + j < N" unfolding N_def sz using that(3,4) by (rule block_offset_less)
    have v: "valid_index (shape s1) [b, h, i * W + j, c]"
      using that p by (simp add: s1_def)
    have e: "ravel [B, Hd, H, W, C] [b, h, i, j, c] = ravel (shape s1) [b, h, i * W + j, c]"
      using sz by (simp add: s1_def N_def algebra_simps)
    have "elem z [b, h, i, j, c] = elem s1 [b, h, i * W + j, c]"
      unfolding z_def tensor.simps by (rule reshape_elem [OF v e])
    also have "\<dots> = (\<Sum>k\<leftarrow>[0..<N].
                   if elem idx1 [k, 0] = int (i * W + j) then elem g2 [k, b, h, c] else 0)"
      by (simp add: s1_def s_def upt_4 cong: if_cong)
    also have "\<dots> = (\<Sum>k\<leftarrow>[0..<N].
                   if elem idx [k div ba, k mod ba] = int (i * W + j)
                   then elem g [b, h, k div ba, k mod ba, c] else 0)"
    proof (rule sum_list_cong)
      fix k assume "k \<in> set [0..<N]"
      then have k: "k < nb * ba" by (simp add: N_def)
      have ba: "0 < ba" using k by (cases ba) auto
      have vk: "valid_index (shape g) [b, h, k div ba, k mod ba, c]"
        using that k ba by (simp add: sg less_mult_imp_div_less)
      have "k div ba * (ba * C) + k mod ba * C = k * C" by (rule split_position)
      then have ek: "ravel [B, Hd, N, C] [b, h, k, c] = ravel (shape g) [b, h, k div ba, k mod ba, c]"
        by (simp add: sg N_def)
      have "elem g2 [k, b, h, c] = elem g1 [b, h, k, c]"
        by (simp add: g2_def upt_4)
      also have "\<dots> = elem g [b, h, k div ba, k mod ba, c]"
        unfolding g1_def tensor.simps by (rule reshape_elem [OF vk ek])
      finally show "(if elem idx1 [k, 0] = int (i * W + j) then elem g2 [k, b, h, c] else 0)
                  = (if elem idx [k div ba, k mod ba] = int (i * W + j)
                     then elem g [b, h, k div ba, k mod ba, c] else 0)"
        by (simp only: pick)
    qed
    finally show ?thesis by (simp only: N_def)
  qed
  from res el show ?thesis by (intro exI [of _ z]) (simp add: z_def)
qed

lemma sum_list_none:
  fixes G :: "'b \<Rightarrow> 'a::comm_monoid_add"
  shows "v \<notin> f ` set xs \<Longrightarrow> (\<Sum>k\<leftarrow>xs. if f k = v then G k else 0) = 0"
  by (induction xs) auto

lemma sum_list_one:
  fixes G :: "'b \<Rightarrow> 'a::comm_monoid_add"
  assumes "count (mset (map f xs)) v = 1" and "\<And>k. k \<in> set xs \<Longrightarrow> f k = v \<Longrightarrow> G k = c"
  shows "(\<Sum>k\<leftarrow>xs. if f k = v then G k else 0) = c"
  using assms
proof (induction xs)
  case Nil
  then show ?case by simp
next
  case (Cons x xs)
  show ?case
  proof (cases "f x = v")
    case True
    then have "count (mset (map f xs)) v = 0" using Cons.prems(1) by simp
    then have "v \<notin> f ` set xs" by (simp add: count_eq_zero_iff)
    from sum_list_none [OF this, of G] True Cons.prems(2) show ?thesis by simp
  next
    case False
    then have "count (mset (map f xs)) v = 1" using Cons.prems(1) by simp
    from Cons.IH [OF this] Cons.prems(2) False show ?thesis by simp
  qed
qed


text \<open>
  Claim C6. For a tensor \<open>y\<close> of shape \<open>[B, Hd, H, W, C]\<close> (such as a padded feature
  map) with at least one batch entry, head and channel, and gather indices whose rows
  together hold each of \<open>0, ..., H * W - 1\<close> exactly once (the indices of
  non-overlapping blocks), gathering the blocks and scattering them back with the same
  indices into the shape of \<open>y\<close> succeeds and gives a tensor with the shape and the
  elements of \<open>y\<close>.
\<close>

theorem scatter_gather_round_trip:
  assumes shp: "shape y = [B, Hd, H, W, C]" and pos: "0 < B" "0 < Hd" "0 < C"
    and si: "shape idx = [nb, ba]"
    and bij: "mset (concat (rows_of idx)) = mset (map int [0..<H * W])"
  shows "\<exists>g z. gather_blocks_2d y idx = Inr g
           \<and> scatter_blocks_2d g idx (shape_list y) = Inr z
           \<and> shape z = shape y
           \<and> (\<forall>ix. valid_index (shape y) ix \<longrightarrow> elem z ix = elem y ix)"
proof -
  define N where "N = nb * ba"
  define \<phi> where "\<phi> k = elem idx [k div ba, k mod ba]" for k
  have cat: "concat (rows_of idx) = map \<phi> [0..<N]"
    unfolding rows_of_def row_of_def N_def \<phi>_def by (simp add: si concat_rows)
  have ms: "mset (map \<phi> [0..<N]) = mset (map int [0..<H * W])" using bij by (simp only: cat)
  from mset_eq_length [OF ms] have sz: "nb * ba = H * W" by (simp add: N_def)
  from mset_eq_setD [OF ms] have st: "set (map \<phi> [0..<N]) = int ` {..<H * W}"
    by (simp add: atLeast0LessThan)
  have rng: "0 \<le> elem idx [n, a] \<and> elem idx [n, a] < int (H * W)" if "n < nb" "a < ba" for n a
  proof -
    have k: "n * ba + a < N" unfolding N_def using that by (rule block_offset_less)
    have "\<phi> (n * ba + a) = elem idx [n, a]" using that(2) by (simp add: \<phi>_def)
    moreover have "\<phi> (n * ba + a) \<in> set (map \<phi> [0..<N])" using k by simp
    ultimately have "elem idx [n, a] \<in> int ` {..<H * W}" by (simp only: st)
    then obtain x where "elem idx [n, a] = int x" "x < H * W" by auto
    then show ?thesis by (simp only: of_nat_0_le_iff of_nat_less_iff simp_thms)
  qed
  from gather_blocks_2d_spec [OF shp si rng]
  obtain g where g: "gather_blocks_2d y idx = Inr g" and sg: "shape g = [B, Hd, nb, ba, C]"
    and eg: "\<And>b h n a c. b < B \<Longrightarrow> h < Hd \<Longrightarrow> n < nb \<Longrightarrow> a < ba \<Longrightarrow> c < C \<Longrightarrow>
               elem g [b, h, n, a, c]
                 = elem y [b, h, nat (elem idx [n, a]) div W, nat (elem idx [n, a]) mod W, c]"
    by blast
  from scatter_blocks_2d_spec [OF sg pos si sz rng]
  obtain z where z: "scatter_blocks_2d g idx [B, Hd, H, W, C] = Inr z"
    and sz': "shape z = [B, Hd, H, W, C]"
    and ez: "\<And>b h i j c. b < B \<Longrightarrow> h < Hd \<Longrightarrow> i < H \<Longrightarrow> j < W \<Longrightarrow> c < C \<Longrightarrow>
               elem z [b, h, i, j, c]
                 = (\<Sum>k\<leftarrow>[0..<N]. if \<phi> k = int (i * W + j)
                                  then elem g [b, h, k div ba, k mod ba, c] else 0)"
    unfolding N_def \<phi>_def by blast
  have el: "elem z ix = elem y ix" if "valid_index (shape y) ix" for ix
  proof -
    from that obtain b h i j c where ix: "ix = [b, h, i, j, c]"
      and lt: "b < B" "h < Hd" "i < H" "j < W" "c < C"
      unfolding shp by (auto dest!: valid_index_ConsE)
    have p: "i * W + j < H * W" using lt(3,4) by (rule block_offset_less)
    have "count (mset (map int [0..<H * W])) (int (i * W + j)) = 1"
    proof -
      have "distinct (map int [0..<H * W])" by (simp add: distinct_map)
      moreover have "i * W + j \<in> set [0..<H * W]" using p by simp
      then have "int (i * W + j) \<in> set (map int [0..<H * W])"
        unfolding set_map by (rule imageI)
      ultimately show ?thesis by (simp only: distinct_count_atmost_1 if_True)
    qed
    then have one: "count (mset (map \<phi> [0..<N])) (int (i * W + j)) = 1" by (simp only: ms)
    have pick: "elem g [b, h, k div ba, k mod ba, c] = elem y [b, h, i, j, c]"
      if "k \<in> set [0..<N]" "\<phi> k = int (i * W + j)" for k
    proof -
      have k: "k < nb * ba" using that(1) by (simp add: N_def)
      have "0 < ba" using k by (cases ba) auto
      then have kk: "k div ba < nb" "k mod ba < ba" using k by (simp_all add: less_mult_imp_div_less)
      have "elem idx [k div ba, k mod ba] = int (i * W + j)"
        using that(2) unfolding \<phi>_def .
      then have "nat (elem idx [k div ba, k mod ba]) = i * W + j"
        by (simp only: nat_int)
      moreover have "(i * W + j) div W = i" "(i * W + j) mod W = j" using lt(4) by simp_all
      ultimately show ?thesis using eg [OF lt(1,2) kk lt(5)] by simp
    qed
    have "elem z [b, h, i, j, c] = elem y [b, h, i, j, c]"
      unfolding ez [OF lt] by (rule sum_list_one [OF one pick])
    then show ?thesis by (simp only: ix)
  qed
  from g z sz' el show ?thesis
    by (intro exI [of _ g] exI [of _ z]) (simp add: shape_list_def shp)
qed

theorem scatter_gather_round_trip_witness:
  "\<exists>y idx g z. pad_to_multiple_2d (ramp [1, 1, 3, 5, 1]) (2, 3) = Inr y
      \<and> gather_indices_2d y (2, 3) (2, 3) = Inr idx
      \<and> gather_blocks_2d y idx = Inr g
      \<and> scatter_blocks_2d g idx (shape_list y) = Inr z
      \<and> shape z = [1, 1, 4, 6, 1]
      \<and> elem z [0, 0, 2, 4, 0] = 15 \<and> elem z [0, 0, 3, 5, 0] = 0"
proof -
  let ?x = "ramp [1, 1, 3, 5, 1]"
  have sx: "shape ?x = [1, 1, 3, 5, 1]" by (simp add: ramp_def)
  have nm: "neg_mod 3 2 = 1" "neg_mod 5 3 = 1" by (simp_all add: neg_mod_def)
  from pad_to_multiple_2d_rank5 [OF sx, of 2 3]
  obtain y where y: "pad_to_multiple_2d ?x (2, 3) = Inr y"
    and sy: "shape y = [1, 1, 4, 6, 1]"
    and ey: "\<And>ix. valid_index (shape y) ix \<Longrightarrow>
               elem y ix = (if valid_index (shape ?x) ix then elem ?x ix else 0)"
    by (auto simp: nm)
  have a: "4 \<le> length (shape y)" "shape y ! 2 = 2 * 2" "shape y ! 3 = 2 * 3"
    "(2 * 2) * (2 * 3) \<le> (2::nat) ^ 24 + 1" "(2::nat) \<le> 2 * 2" "(3::nat) \<le> 2 * 3"
    by (simp_all add: sy)
  have p2: "0 < (2::nat)" and p3: "0 < (3::nat)" by simp_all
  from gather_indices_2d_spec [OF a(1,2,3) p2 p3 p2 p3 a(5,6)]
  obtain idx where idx: "gather_indices_2d y (2, 3) (2, 3) = Inr idx"
    and si: "shape idx = [((2 * 2 - 2) div 2 + 1) * ((2 * 3 - 3) div 3 + 1), 2 * 3]"
    by blast
  from gather_indices_2d_partition [OF a(1,2,3) p2 p3 p2 p2 a(4)]
  obtain idx' where "gather_indices_2d y (2, 3) (2, 3) = Inr idx'"
    "mset (concat (rows_of idx')) = mset (map int [0..<(2 * 2) * (2 * 3)])"
    by blast
  moreover have "(2 * 2) * (2 * 3) = (4::nat) * 6" by simp
  ultimately have bij: "mset (concat (rows_of idx)) = mset (map int [0..<4 * 6])"
    using idx by (simp only: sum.inject)
  have pos: "(0::nat) < 1" by simp
  from scatter_gather_round_trip [OF sy pos pos pos si bij]
  obtain g z where g: "gather_blocks_2d y idx = Inr g"
    and z: "scatter_blocks_2d g idx (shape_list y) = Inr z"
    and sz: "shape z = shape y"
    and ez: "\<And>ix. valid_index (shape y) ix \<Longrightarrow> elem z ix = elem y ix"
    by blast
  have "elem z [0, 0, 2, 4, 0] = 15" "elem z [0, 0, 3, 5, 0] = 0"
    by (simp_all add: ez ey sy ramp_def)
  with y idx g z sz sy show ?thesis by auto
qed

subsection \<open>Padding mask and attention bias\<close>












end
